theory Spec2Isabelle
  imports Complex_Main "HOL-Library.AList" "HOL-Library.Char_ord" "HOL-Library.List_Lexorder"
    "HOL-Library.Product_Lexorder"
begin

section \<open>Python values shared by the whole engine\<close>

text \<open>
  A Python \<open>str\<close> is a sequence of Unicode code points, so buffer text is a list of
  code points (\<open>nat\<close>): \<open>len\<close> is \<open>length\<close>, and the line boundaries of
  \<open>str.splitlines\<close> that lie beyond Latin-1 (U+2028, U+2029) stay expressible.
  Identifiers whose content no modelled operation inspects (labels, buffer names,
  register names, error messages) are HOL strings.
\<close>

type_synonym pystr = "nat list"

type_synonym Cursor = "int \<times> int"

type_synonym Selection = "Cursor \<times> Cursor"

datatype error =
    BufferValidationError string Cursor
  | IndexError
  | KeyError string
  | ValueError string
  | KeymapConflictError string "string list"
  | RuntimeError string
  | OverflowError

text \<open>Python slices \<open>s[:n]\<close>, \<open>s[n:]\<close> and \<open>s[a:b]\<close>: a negative bound counts from the
  end, and every bound is clamped to the sequence.\<close>

definition slice_to :: "'a list \<Rightarrow> int \<Rightarrow> 'a list" where
  "slice_to s n = (if n < 0 then take (nat (int (length s) + n)) s else take (nat n) s)"

definition slice_from :: "'a list \<Rightarrow> int \<Rightarrow> 'a list" where
  "slice_from s n = (if n < 0 then drop (nat (int (length s) + n)) s else drop (nat n) s)"

definition slice_bound :: "'a list \<Rightarrow> int \<Rightarrow> nat" where
  "slice_bound s i =
     (if i < 0 then nat (max 0 (int (length s) + i)) else min (nat i) (length s))"

definition slice :: "'a list \<Rightarrow> int \<Rightarrow> int \<Rightarrow> 'a list" where
  "slice s a b = take (slice_bound s b - slice_bound s a) (drop (slice_bound s a) s)"

section \<open>buffer/document.py\<close>

record BufferDocument =
  lines :: "pystr list"
  version :: int
  dirty :: bool

text \<open>The line boundaries of \<open>str.splitlines\<close>: LF, VT, FF, CR, FS, GS, RS, NEL, LS, PS.
  CR immediately followed by LF is one boundary.\<close>

definition is_linebreak :: "nat \<Rightarrow> bool" where
  "is_linebreak c \<longleftrightarrow> c \<in> {10, 11, 12, 13, 28, 29, 30, 133, 8232, 8233}"

text \<open>\<open>split_acc cur s\<close> scans \<open>s\<close> with the characters \<open>cur\<close> of the line in progress;
  a last line is emitted only when it is not empty, as \<open>splitlines\<close> does.\<close>

fun split_acc :: "pystr \<Rightarrow> pystr \<Rightarrow> pystr list" where
  "split_acc cur [] = (if cur = [] then [] else [cur])"
| "split_acc cur (c # cs) =
     (if c = 13 then
        (case cs of
           [] \<Rightarrow> cur # split_acc [] cs
         | d # ds \<Rightarrow> if d = 10 then cur # split_acc [] ds else cur # split_acc [] cs)
      else if is_linebreak c then cur # split_acc [] cs
      else split_acc (cur @ [c]) cs)"

definition splitlines :: "pystr \<Rightarrow> pystr list" where
  "splitlines s = split_acc [] s"

definition endswith_newline :: "pystr \<Rightarrow> bool" where
  "endswith_newline s \<longleftrightarrow> s \<noteq> [] \<and> last s = 10"

definition from_text :: "pystr \<Rightarrow> BufferDocument" where
  "from_text txt =
     (let ls = splitlines txt;
          ls' = (if ls = [] then [[]]
                 else if endswith_newline txt then ls @ [[]]
                 else ls)
      in \<lparr>lines = ls', version = 0, dirty = False\<rparr>)"

definition default_document :: BufferDocument where
  "default_document = \<lparr>lines = [[]], version = 0, dirty = False\<rparr>"

definition snapshot :: "BufferDocument \<Rightarrow> pystr list" where
  "snapshot d = lines d"

text \<open>\<open>BufferDocument.replace\<close>: the sibling constructor that bumps the version.\<close>

definition replace_doc :: "BufferDocument \<Rightarrow> pystr list \<Rightarrow> bool option \<Rightarrow> BufferDocument" where
  "replace_doc d ls dirty_opt =
     \<lparr>lines = ls, version = version d + 1,
      dirty = (case dirty_opt of None \<Rightarrow> dirty d | Some x \<Rightarrow> x)\<rparr>"

definition line_count :: "BufferDocument \<Rightarrow> int" where
  "line_count d = int (length (lines d))"

section \<open>buffer/state.py, buffer/registers.py, buffer/undo.py\<close>

record BufferState =
  cursor :: Cursor
  selection :: "Selection option"
  active_register :: string
  last_change_tick :: int

definition default_state :: BufferState where
  "default_state = \<lparr>cursor = (0, 0), selection = None, active_register = [CHR 0x22],
     last_change_tick = 0\<rparr>"

definition set_cursor :: "BufferState \<Rightarrow> int \<Rightarrow> int \<Rightarrow> BufferState" where
  "set_cursor st row col = st\<lparr>cursor := (row, col)\<rparr>"

record RegisterValue =
  reg_text :: pystr
  reg_type :: string

type_synonym RegisterBank = "string \<rightharpoonup> RegisterValue"

definition default_registers :: RegisterBank where
  "default_registers = Map.empty([CHR 0x22] \<mapsto> \<lparr>reg_text = [], reg_type = ''character''\<rparr>)"

record UndoEntry =
  label :: string
  before_text :: pystr
  after_text :: pystr
  cursor_before :: Cursor
  cursor_after :: Cursor

record UndoTimeline =
  entries :: "UndoEntry list"
  index :: int

definition empty_timeline :: UndoTimeline where
  "empty_timeline = \<lparr>entries = [], index = -1\<rparr>"

definition push :: "UndoTimeline \<Rightarrow> UndoEntry \<Rightarrow> UndoTimeline" where
  "push t e =
     (let es = (if index t < int (length (entries t)) - 1
                then slice_to (entries t) (index t + 1)
                else entries t);
          es' = es @ [e]
      in \<lparr>entries = es', index = int (length es') - 1\<rparr>)"

definition can_undo :: "UndoTimeline \<Rightarrow> bool" where
  "can_undo t \<longleftrightarrow> index t \<ge> 0"

definition can_redo :: "UndoTimeline \<Rightarrow> bool" where
  "can_redo t \<longleftrightarrow> index t < int (length (entries t)) - 1"

text \<open>Python list indexing \<open>xs[i]\<close>: a negative index counts from the end; out of range
  raises \<open>IndexError\<close>.\<close>

definition getitem :: "'a list \<Rightarrow> int \<Rightarrow> error + 'a" where
  "getitem xs i =
     (if 0 \<le> i \<and> i < int (length xs) then Inr (xs ! nat i)
      else if i < 0 \<and> - int (length xs) \<le> i then Inr (xs ! nat (int (length xs) + i))
      else Inl IndexError)"

text \<open>\<open>undo\<close> reads the entry and then moves the index; \<open>redo\<close> moves the index and then
  reads the entry, so a failing read of \<open>redo\<close> leaves the moved index behind.\<close>

definition undo :: "UndoTimeline \<Rightarrow> (error + UndoEntry option) \<times> UndoTimeline" where
  "undo t =
     (if \<not> can_undo t then (Inr None, t)
      else (case getitem (entries t) (index t) of
              Inl err \<Rightarrow> (Inl err, t)
            | Inr e \<Rightarrow> (Inr (Some e), t\<lparr>index := index t - 1\<rparr>)))"

definition redo :: "UndoTimeline \<Rightarrow> (error + UndoEntry option) \<times> UndoTimeline" where
  "redo t =
     (if \<not> can_redo t then (Inr None, t)
      else (let t' = t\<lparr>index := index t + 1\<rparr>
            in (case getitem (entries t') (index t') of
                  Inl err \<Rightarrow> (Inl err, t')
                | Inr e \<Rightarrow> (Inr (Some e), t'))))"

section \<open>buffer/validation.py and buffer/buffer.py\<close>

definition ensure_cursor :: "BufferDocument \<Rightarrow> Cursor \<Rightarrow> error + Cursor" where
  "ensure_cursor d c =
     (case c of (row, col) \<Rightarrow>
        if row < 0 \<or> row \<ge> line_count d then Inl (BufferValidationError ''Row out of range'' c)
        else (case getitem (lines d) row of
                Inl err \<Rightarrow> Inl err
              | Inr line \<Rightarrow>
                  if col < 0 \<or> col > int (length line)
                  then Inl (BufferValidationError ''Column out of range'' c)
                  else Inr c))"

record Buffer =
  name :: string
  document :: BufferDocument
  state :: BufferState
  registers :: RegisterBank
  undo_timeline :: UndoTimeline

record BufferDelta =
  delta_version :: int
  delta_text :: pystr
  delta_cursor :: Cursor
  delta_selection :: "Selection option"
  delta_label :: string

definition buffer_from_text :: "pystr \<Rightarrow> string \<Rightarrow> Buffer" where
  "buffer_from_text txt nm =
     \<lparr>name = nm, document = from_text txt, state = default_state,
      registers = default_registers, undo_timeline = empty_timeline\<rparr>"

text \<open>\<open>"\n".join(lines)\<close>\<close>

fun flatten_lines :: "pystr list \<Rightarrow> pystr" where
  "flatten_lines [] = []"
| "flatten_lines [l] = l"
| "flatten_lines (l # ls) = l @ 10 # flatten_lines ls"

text \<open>The loop \<open>for i in range(row): offset += len(lines[i]) + 1\<close>; reading a row past
  the last line raises \<open>IndexError\<close>, and a row \<open>\<le> 0\<close> runs no iteration.\<close>

fun offset_rows :: "pystr list \<Rightarrow> nat \<Rightarrow> error + int" where
  "offset_rows ls 0 = Inr 0"
| "offset_rows [] (Suc n) = Inl IndexError"
| "offset_rows (l # ls) (Suc n) =
     (case offset_rows ls n of
        Inl err \<Rightarrow> Inl err
      | Inr off \<Rightarrow> Inr (int (length l) + 1 + off))"

definition offset_for_cursor :: "BufferDocument \<Rightarrow> Cursor \<Rightarrow> error + int" where
  "offset_for_cursor d c =
     (case c of (row, col) \<Rightarrow>
        (case offset_rows (snapshot d) (nat row) of
           Inl err \<Rightarrow> Inl err
         | Inr off \<Rightarrow> Inr (off + col)))"

fun cursor_scan :: "pystr list \<Rightarrow> int \<Rightarrow> int \<Rightarrow> int \<Rightarrow> Cursor option" where
  "cursor_scan [] row running off = None"
| "cursor_scan (l # ls) row running off =
     (if off \<le> running + int (length l) then Some (row, off - running)
      else cursor_scan ls (row + 1) (running + int (length l) + 1) off)"

definition cursor_from_offset :: "BufferDocument \<Rightarrow> int \<Rightarrow> error + Cursor" where
  "cursor_from_offset d off =
     (case cursor_scan (snapshot d) 0 0 off of
        Some c \<Rightarrow> Inr c
      | None \<Rightarrow>
          (case getitem (snapshot d) (-1) of
             Inl err \<Rightarrow> Inl err
           | Inr l \<Rightarrow> Inr (int (length (snapshot d)) - 1, int (length l))))"

text \<open>\<open>Transaction.commit\<close>: build the undo entry and push it on the buffer's timeline.
  The telemetry span the transaction opens is outside the engine core.\<close>

definition commit :: "Buffer \<Rightarrow> string \<Rightarrow> pystr \<Rightarrow> pystr \<Rightarrow> Cursor \<Rightarrow> Cursor \<Rightarrow> Buffer" where
  "commit b lbl before after c_before c_after =
     b\<lparr>undo_timeline := push (undo_timeline b)
          \<lparr>label = lbl, before_text = before, after_text = after,
           cursor_before = c_before, cursor_after = c_after\<rparr>\<rparr>"

text \<open>\<open>Buffer.replace_range\<close> returns its result together with the buffer as the call
  leaves it, also when it raises: each assignment of the source is one update below, in
  the source's order.\<close>

definition replace_range ::
  "Buffer \<Rightarrow> Cursor \<Rightarrow> Cursor \<Rightarrow> pystr \<Rightarrow> string \<Rightarrow> (error + BufferDelta) \<times> Buffer" where
  "replace_range b start end txt lbl =
     (case ensure_cursor (document b) start of
        Inl err \<Rightarrow> (Inl err, b)
      | Inr start \<Rightarrow>
     (case ensure_cursor (document b) end of
        Inl err \<Rightarrow> (Inl err, b)
      | Inr end \<Rightarrow>
     (let before = flatten_lines (snapshot (document b)) in
     (case offset_for_cursor (document b) start of
        Inl err \<Rightarrow> (Inl err, b)
      | Inr start_offset \<Rightarrow>
     (case offset_for_cursor (document b) end of
        Inl err \<Rightarrow> (Inl err, b)
      | Inr end_offset \<Rightarrow>
     (let new_text = slice_to before start_offset @ txt @ slice_from before end_offset;
          b1 = b\<lparr>document := from_text new_text\<rparr>
      in
     (case cursor_from_offset (document b1) (start_offset + int (length txt)) of
        Inl err \<Rightarrow> (Inl err, b1)
      | Inr (row, col) \<Rightarrow>
     (let b2 = b1\<lparr>state := set_cursor (state b1) row col\<rparr>;
          b3 = b2\<lparr>state := (state b2)\<lparr>last_change_tick := version (document b2)\<rparr>\<rparr>;
          b4 = commit b3 lbl before new_text start (cursor (state b3))
      in (Inr \<lparr>delta_version = version (document b4), delta_text = new_text,
                delta_cursor = cursor (state b4), delta_selection = selection (state b4),
                delta_label = lbl\<rparr>, b4)))))))))"

definition insert_text :: "Buffer \<Rightarrow> pystr \<Rightarrow> Cursor option \<Rightarrow> (error + BufferDelta) \<times> Buffer" where
  "insert_text b txt cur =
     (let position = (case cur of None \<Rightarrow> cursor (state b) | Some c \<Rightarrow> c)
      in replace_range b position position txt ''insert_text'')"

definition delete_range :: "Buffer \<Rightarrow> Cursor \<Rightarrow> Cursor \<Rightarrow> (error + BufferDelta) \<times> Buffer" where
  "delete_range b start end = replace_range b start end [] ''delete_range''"

text \<open>Tuple comparison \<open>start > end\<close> on cursors is lexicographic.\<close>

definition cursor_gt :: "Cursor \<Rightarrow> Cursor \<Rightarrow> bool" where
  "cursor_gt a b \<longleftrightarrow> fst a > fst b \<or> (fst a = fst b \<and> snd a > snd b)"

definition get_text_range :: "Buffer \<Rightarrow> Cursor \<Rightarrow> Cursor \<Rightarrow> error + pystr" where
  "get_text_range b start end =
     (case ensure_cursor (document b) start of
        Inl err \<Rightarrow> Inl err
      | Inr start \<Rightarrow>
     (case ensure_cursor (document b) end of
        Inl err \<Rightarrow> Inl err
      | Inr end \<Rightarrow>
     (let (start, end) = (if cursor_gt start end then (end, start) else (start, end));
          txt = flatten_lines (snapshot (document b))
      in
     (case offset_for_cursor (document b) start of
        Inl err \<Rightarrow> Inl err
      | Inr start_offset \<Rightarrow>
     (case offset_for_cursor (document b) end of
        Inl err \<Rightarrow> Inl err
      | Inr end_offset \<Rightarrow> Inr (slice txt start_offset end_offset))))))"

section \<open>Auxiliary notions for the buffer claims\<close>

text \<open>A timeline object is only ever built empty and changed by its three methods, so the
  timelines a program can hold are the runs of method calls from the empty one.\<close>

datatype timeline_op = Push UndoEntry | Undo | Redo

fun apply_op :: "UndoTimeline \<Rightarrow> timeline_op \<Rightarrow> UndoTimeline" where
  "apply_op t (Push e) = push t e"
| "apply_op t Undo = snd (undo t)"
| "apply_op t Redo = snd (redo t)"

definition run_timeline :: "timeline_op list \<Rightarrow> UndoTimeline" where
  "run_timeline ops = foldl apply_op empty_timeline ops"

definition timeline_inv :: "UndoTimeline \<Rightarrow> bool" where
  "timeline_inv t \<longleftrightarrow> -1 \<le> index t \<and> index t < int (length (entries t))"

text \<open>A cursor is in bounds when its row is in \<open>[0, line_count)\<close> and its column in
  \<open>[0, len(line)]\<close>.\<close>

definition in_bounds :: "BufferDocument \<Rightarrow> Cursor \<Rightarrow> bool" where
  "in_bounds d c \<longleftrightarrow>
     (case c of (row, col) \<Rightarrow>
        0 \<le> row \<and> row < line_count d \<and> 0 \<le> col \<and> col \<le> int (length (lines d ! nat row)))"

text \<open>Sample values: three undo entries, and the buffer \<open>Buffer.from_text("abc")\<close>.\<close>

definition entry_a :: UndoEntry where
  "entry_a = \<lparr>label = ''a'', before_text = [], after_text = [97], cursor_before = (0, 0),
     cursor_after = (0, 1)\<rparr>"

definition entry_b :: UndoEntry where
  "entry_b = \<lparr>label = ''b'', before_text = [97], after_text = [97, 98], cursor_before = (0, 1),
     cursor_after = (0, 2)\<rparr>"

definition entry_c :: UndoEntry where
  "entry_c = \<lparr>label = ''c'', before_text = [97], after_text = [97, 99], cursor_before = (0, 1),
     cursor_after = (0, 2)\<rparr>"

definition abc_buffer :: Buffer where
  "abc_buffer = buffer_from_text [97, 98, 99] ''default''"

section \<open>Auxiliary notions for the round trip\<close>

text \<open>A document is clean when no line holds a line boundary (every document built by
  \<open>from_text\<close> is); a text is LF-only when its only line boundaries are LF.
  \<open>text_lines\<close> is the line list \<open>from_text\<close> builds, with a line in progress;
  \<open>row_offset\<close> is the offset of the start of a row; \<open>text_cursor\<close> reads the cursor at
  the end of a text off the text.\<close>

definition clean_lines :: "pystr list \<Rightarrow> bool" where
  "clean_lines ls \<longleftrightarrow> (\<forall>l \<in> set ls. \<forall>c \<in> set l. \<not> is_linebreak c)"

definition lf_only :: "pystr \<Rightarrow> bool" where
  "lf_only s \<longleftrightarrow> (\<forall>c \<in> set s. is_linebreak c \<longrightarrow> c = 10)"

definition text_lines :: "pystr \<Rightarrow> pystr \<Rightarrow> pystr list" where
  "text_lines cur s =
     (if split_acc cur s = [] then [[]]
      else if endswith_newline s then split_acc cur s @ [[]]
      else split_acc cur s)"

definition row_offset :: "pystr list \<Rightarrow> nat \<Rightarrow> int" where
  "row_offset ls r = (\<Sum>l \<leftarrow> take r ls. int (length l) + 1)"

definition text_cursor :: "pystr \<Rightarrow> Cursor" where
  "text_cursor s = (int (count_list s 10), int (length (takeWhile (\<lambda>c. c \<noteq> 10) (rev s))))"

definition two_line_buffer :: Buffer where
  "two_line_buffer = buffer_from_text [97, 98, 10, 99, 100] ''default''"

section \<open>modes/base\_mode.py\<close>

record KeyInput =
  key :: string
  modifiers :: "string list"
  key_text :: "string option"

record ModeResult =
  consumed :: bool
  switch_to :: "string option"
  status :: string
  message :: "string option"
  timeout_ms :: "int option"

text \<open>\<open>ModeResult(consumed=c)\<close> with the dataclass defaults for the other fields.\<close>

definition mode_result :: "bool \<Rightarrow> ModeResult" where
  "mode_result c =
     \<lparr>consumed = c, switch_to = None, status = ''ok'', message = None, timeout_ms = None\<rparr>"

section \<open>modes/command\_mode.py\<close>

text \<open>The part of a \<open>CommandMode\<close> and of its context that text input touches: the typed
  texts, the pending tokens, \<open>extras["command_state"]["text"]\<close>, and the events emitted on
  the bus (name and payload, oldest first).\<close>

record CommandMode =
  typed :: "string list"
  pending :: "string list"
  command_state_text :: string
  emitted :: "(string \<times> string) list"

definition current_command :: "CommandMode \<Rightarrow> string" where
  "current_command m = concat (typed m)"

definition sync_command_state :: "CommandMode \<Rightarrow> CommandMode" where
  "sync_command_state m = m\<lparr>command_state_text := current_command m\<rparr>"

definition emit :: "string \<Rightarrow> string \<Rightarrow> CommandMode \<Rightarrow> CommandMode" where
  "emit event payload m = m\<lparr>emitted := emitted m @ [(event, payload)]\<rparr>"

text \<open>A Python string is truthy when it is not empty; \<open>None\<close> is falsy.\<close>

definition truthy :: "string option \<Rightarrow> bool" where
  "truthy x \<longleftrightarrow> (case x of None \<Rightarrow> False | Some s \<Rightarrow> s \<noteq> [])"

definition handle_text_input :: "KeyInput \<Rightarrow> CommandMode \<Rightarrow> ModeResult \<times> CommandMode" where
  "handle_text_input k m =
     (if key k \<in> {''ESC'', ''<Esc>''} then
        ((mode_result True)\<lparr>switch_to := Some ''normal'', message := Some ''command_cancel''\<rparr>,
         sync_command_state (m\<lparr>typed := []\<rparr>))
      else if key k \<in> {''ENTER'', ''RETURN''} then
        (let command = current_command m;
             m1 = emit ''command.submit'' command m
         in ((mode_result True)\<lparr>switch_to := Some ''normal'', status := ''command_submit'',
               message := Some command\<rparr>,
             sync_command_state (m1\<lparr>typed := []\<rparr>)))
      else if key k = ''BACKSPACE'' \<and> typed m \<noteq> [] then
        ((mode_result True)\<lparr>status := ''editing''\<rparr>,
         sync_command_state (m\<lparr>typed := butlast (typed m)\<rparr>))
      else if truthy (key_text k) then
        ((mode_result True)\<lparr>status := ''editing''\<rparr>,
         sync_command_state (m\<lparr>typed := typed m @ [the (key_text k)]\<rparr>))
      else ((mode_result False)\<lparr>status := ''miss'', message := Some ''unhandled''\<rparr>, m))"

definition backspace_key :: KeyInput where
  "backspace_key = \<lparr>key = ''BACKSPACE'', modifiers = [], key_text = None\<rparr>"

definition typed_w :: CommandMode where
  "typed_w = \<lparr>typed = [''w''], pending = [], command_state_text = ''w'', emitted = []\<rparr>"

section \<open>modes/operator\_pipeline.py\<close>

record ExecutionPlan =
  operator_id :: string
  motion_id :: "string option"
  plan_count :: "int option"
  register_name :: string
  raw_input :: "string list"

record OperatorDraft =
  draft_count :: "int option"
  motion :: "string option"
  operator :: "string option"
  raw_keys :: "string list"

definition new_draft :: OperatorDraft where
  "new_draft = \<lparr>draft_count = None, motion = None, operator = None, raw_keys = []\<rparr>"

text \<open>\<open>CountParser.parse\<close>. The built-ins \<open>str.isdigit\<close> and \<open>int\<close> belong to the
  interpreter, not to the repository: they are the parameters \<open>isdigit\<close> and \<open>to_int\<close>
  (\<open>None\<close> when \<open>int\<close> raises \<open>ValueError\<close>). The loop collects the leading keys that are
  digits and stops at the first that is not.\<close>

definition count_parse ::
  "(string \<Rightarrow> bool) \<Rightarrow> (string \<Rightarrow> int option) \<Rightarrow> string list \<Rightarrow> OperatorDraft
   \<Rightarrow> error + (string list \<times> OperatorDraft)" where
  "count_parse isdigit to_int keys draft =
     (let digits = takeWhile isdigit keys;
          draft1 = draft\<lparr>raw_keys := raw_keys draft @ digits\<rparr>
      in if digits \<noteq> [] then
           (case to_int (concat digits) of
              None \<Rightarrow> Inl (ValueError ''invalid literal for int()'')
            | Some n \<Rightarrow> Inr (drop (length digits) keys, draft1\<lparr>draft_count := Some n\<rparr>))
         else Inr (keys, draft1))"

definition motion_parse :: "string list \<Rightarrow> OperatorDraft \<Rightarrow> string list \<times> OperatorDraft" where
  "motion_parse keys draft =
     (case keys of
        [] \<Rightarrow> (keys, draft)
      | k # ks \<Rightarrow> (ks, draft\<lparr>motion := Some k, raw_keys := raw_keys draft @ [k]\<rparr>))"

text \<open>\<open>not draft.motion\<close> holds for \<open>None\<close> and for the empty string.\<close>

definition no_motion :: "OperatorDraft \<Rightarrow> bool" where
  "no_motion draft \<longleftrightarrow> (case motion draft of None \<Rightarrow> True | Some m \<Rightarrow> m = [])"

definition resolve :: "string list \<Rightarrow> OperatorDraft \<Rightarrow> ExecutionPlan option \<times> OperatorDraft" where
  "resolve keys draft =
     (if keys = [] \<and> no_motion draft then (None, draft)
      else
        (let draft1 = draft\<lparr>operator := (case keys of [] \<Rightarrow> operator draft | k # ks \<Rightarrow> Some k)\<rparr>
         in case operator draft1 of
              None \<Rightarrow> (None, draft1)
            | Some op \<Rightarrow>
                (let draft2 = draft1\<lparr>raw_keys := raw_keys draft1 @ keys\<rparr>
                 in (Some \<lparr>operator_id = op, motion_id = motion draft2,
                           plan_count = draft_count draft2, register_name = [CHR 0x22],
                           raw_input = raw_keys draft2\<rparr>, draft2))))"

text \<open>\<open>OperatorPipeline.parse\<close>: the three stages on a fresh draft.\<close>

definition parse ::
  "(string \<Rightarrow> bool) \<Rightarrow> (string \<Rightarrow> int option) \<Rightarrow> string list \<Rightarrow> error + ExecutionPlan option" where
  "parse isdigit to_int keys =
     (case count_parse isdigit to_int keys new_draft of
        Inl err \<Rightarrow> Inl err
      | Inr (remaining, draft1) \<Rightarrow>
          (case motion_parse remaining draft1 of
             (remaining2, draft2) \<Rightarrow> Inr (fst (resolve remaining2 draft2))))"

text \<open>\<open>str.isdigit\<close> and \<open>int\<close> on ASCII strings, for evaluation.\<close>

definition ascii_isdigit :: "string \<Rightarrow> bool" where
  "ascii_isdigit s \<longleftrightarrow> s \<noteq> [] \<and> (\<forall>c \<in> set s. 48 \<le> (of_char c :: nat) \<and> (of_char c :: nat) \<le> 57)"

definition ascii_int :: "string \<Rightarrow> int option" where
  "ascii_int s =
     (if ascii_isdigit s
      then Some (foldl (\<lambda>n c. 10 * n + (int (of_char c) - 48)) 0 s)
      else None)"

section \<open>keymaps/models.py\<close>

text \<open>A Python \<open>dict\<close> is an association list in insertion order with one entry per key:
  \<open>d[k] = v\<close> is \<open>AList.update\<close> (in place for a key that is present, at the end for a new
  one), \<open>d.pop(k, None)\<close> is \<open>AList.delete\<close>, \<open>d.get(k)\<close> is \<open>map_of\<close>. A Python \<open>set\<close> of
  strings is a list without repetition.\<close>

record KeyStroke =
  stroke_key :: string
  stroke_modifiers :: "string list"

text \<open>\<open>sep.join(xs)\<close>\<close>

fun join :: "string \<Rightarrow> string list \<Rightarrow> string" where
  "join sep [] = []"
| "join sep [x] = x"
| "join sep (x # xs) = x @ sep @ join sep xs"

definition token :: "KeyStroke \<Rightarrow> string" where
  "token k =
     (if stroke_modifiers k \<noteq> [] then join ''+'' (stroke_modifiers k) @ ''+'' @ stroke_key k
      else stroke_key k)"

record KeySequence =
  strokes :: "KeyStroke list"
  seq_timeout_ms :: int

definition tokens :: "KeySequence \<Rightarrow> string list" where
  "tokens q = map token (strokes q)"

record WhenClause =
  flag :: string
  expected :: bool

text \<open>\<open>WhenClause.evaluate\<close>: \<open>bool(context.get(flag, False)) is expected\<close>.\<close>

definition evaluate :: "WhenClause \<Rightarrow> (string \<rightharpoonup> bool) \<Rightarrow> bool" where
  "evaluate c ctx \<longleftrightarrow> (case ctx (flag c) of None \<Rightarrow> False | Some v \<Rightarrow> v) = expected c"

text \<open>The handler of an action is an opaque callable; the model keeps a name for it.\<close>

record ActionRef =
  ref_id :: string
  handler :: string

text \<open>A binding; the fields \<open>description\<close>, \<open>tags\<close> and \<open>source\<close>, which no operation of the
  registry or the resolver reads, are left out.\<close>

record Binding =
  binding_id :: string
  mode :: string
  sequence :: KeySequence
  action_id :: string
  when_clauses :: "WhenClause list"
  priority :: int

text \<open>\<open>{clause.flag: clause.expected for clause in self.when}\<close>: a later clause on the same
  flag overwrites the value of an earlier one.\<close>

definition when_map :: "Binding \<Rightarrow> (string \<times> bool) list" where
  "when_map b = foldl (\<lambda>d c. AList.update (flag c) (expected c) d) [] (when_clauses b)"

definition allows :: "Binding \<Rightarrow> (string \<rightharpoonup> bool) \<Rightarrow> bool" where
  "allows b ctx \<longleftrightarrow> list_all (\<lambda>c. evaluate c ctx) (when_clauses b)"

definition key_signature :: "Binding \<Rightarrow> string" where
  "key_signature b = join '' '' (tokens (sequence b))"

section \<open>keymaps/registry.py\<close>

record KeymapRegistry =
  actions :: "(string \<times> ActionRef) list"
  bindings :: "(string \<times> Binding) list"
  mode_index :: "(string \<times> (string \<times> string list) list) list"
  revision :: int

definition new_registry :: KeymapRegistry where
  "new_registry = \<lparr>actions = [], bindings = [], mode_index = [], revision = 0\<rparr>"

text \<open>\<open>a == b\<close> on dictionaries: the same keys with the same values, in any order.\<close>

definition dict_eq :: "('k \<times> 'v) list \<Rightarrow> ('k \<times> 'v) list \<Rightarrow> bool" where
  "dict_eq a b \<longleftrightarrow>
     list_all (\<lambda>(k, v). map_of b k = Some v) a \<and> list_all (\<lambda>(k, v). map_of a k = Some v) b"

text \<open>The loop \<open>for flag, expected in a.items(): if flag in b and b[flag] != expected\<close>
  finds a flag the two maps disagree on.\<close>

definition disagree :: "(string \<times> bool) list \<Rightarrow> (string \<times> bool) list \<Rightarrow> bool" where
  "disagree a b \<longleftrightarrow>
     list_ex (\<lambda>(f, e). case map_of b f of None \<Rightarrow> False | Some e' \<Rightarrow> e' \<noteq> e) a"

definition contexts_overlap :: "Binding \<Rightarrow> Binding \<Rightarrow> bool" where
  "contexts_overlap left right =
     (let left_map = when_map left; right_map = when_map right
      in if when_clauses left = [] \<and> when_clauses right = [] then True
         else if disagree left_map right_map then False
         else if disagree right_map left_map then False
         else if when_clauses left = [] \<or> when_clauses right = [] then False
         else dict_eq left_map right_map)"

text \<open>The set of binding ids indexed under a mode and a key signature:
  \<open>self._mode_index.get(mode, {}).get(signature, set())\<close>.\<close>

definition bucket :: "(string \<times> (string \<times> string list) list) list \<Rightarrow> string \<Rightarrow> string \<Rightarrow> string list" where
  "bucket idx m sg =
     (case map_of idx m of
        None \<Rightarrow> []
      | Some by_signature \<Rightarrow> (case map_of by_signature sg of None \<Rightarrow> [] | Some ids \<Rightarrow> ids))"

text \<open>\<open>self._bindings[key]\<close> raises \<open>KeyError\<close> for a missing key.\<close>

definition lookup_binding :: "KeymapRegistry \<Rightarrow> string \<Rightarrow> error + Binding" where
  "lookup_binding r k = (case map_of (bindings r) k of None \<Rightarrow> Inl (KeyError k) | Some b \<Rightarrow> Inr b)"

text \<open>The loop of \<open>detect_conflicts\<close> over the ids of the bucket.\<close>

fun conflicts_loop ::
  "KeymapRegistry \<Rightarrow> Binding \<Rightarrow> string list \<Rightarrow> string list \<Rightarrow> error + Binding list" where
  "conflicts_loop r b ignored [] = Inr []"
| "conflicts_loop r b ignored (match_id # ids) =
     (if match_id \<in> set ignored then conflicts_loop r b ignored ids
      else (case lookup_binding r match_id of
              Inl err \<Rightarrow> Inl err
            | Inr existing \<Rightarrow>
                (case conflicts_loop r b ignored ids of
                   Inl err \<Rightarrow> Inl err
                 | Inr found \<Rightarrow>
                     Inr (if contexts_overlap b existing then existing # found else found))))"

definition detect_conflicts ::
  "KeymapRegistry \<Rightarrow> Binding \<Rightarrow> string list \<Rightarrow> error + Binding list" where
  "detect_conflicts r b ignored =
     conflicts_loop r b ignored (bucket (mode_index r) (mode b) (key_signature b))"

definition gg_sequence :: KeySequence where
  "gg_sequence = \<lparr>strokes = [\<lparr>stroke_key = ''g'', stroke_modifiers = []\<rparr>,
     \<lparr>stroke_key = ''g'', stroke_modifiers = []\<rparr>], seq_timeout_ms = 1000\<rparr>"

definition gg_binding :: "string \<Rightarrow> WhenClause list \<Rightarrow> Binding" where
  "gg_binding i w = \<lparr>binding_id = i, mode = ''normal'', sequence = gg_sequence,
     action_id = ''core.test'', when_clauses = w, priority = 0\<rparr>"

definition test_action :: ActionRef where
  "test_action = \<lparr>ref_id = ''core.test'', handler = ''noop''\<rparr>"

text \<open>The registry after \<open>register_action(core.test)\<close> and \<open>register_binding\<close> of a
  \<open>g g\<close> binding with id \<open>first\<close> and the given guards.\<close>

definition gg_registry :: "WhenClause list \<Rightarrow> KeymapRegistry" where
  "gg_registry w = \<lparr>actions = [(''core.test'', test_action)],
     bindings = [(''first'', gg_binding ''first'' w)],
     mode_index = [(''normal'', [(''g g'', [''first''])])], revision = 1\<rparr>"

section \<open>modes/mode\_manager.py\<close>

text \<open>A mode is an object with a name and four methods. The methods work on the mode's
  own fields and on the shared context; no mode or action of the repository reaches the
  manager. In the model they are functions on one value \<open>'w\<close> that holds the context and
  the private state of every mode.\<close>

record 'w Mode =
  mode_name :: string
  on_enter :: "string option \<Rightarrow> 'w \<Rightarrow> 'w"
  on_exit :: "string option \<Rightarrow> 'w \<Rightarrow> 'w"
  mode_handle_key :: "KeyInput \<Rightarrow> 'w \<Rightarrow> ModeResult \<times> 'w"
  mode_handle_timeout :: "'w \<Rightarrow> ModeResult \<times> 'w"

text \<open>Python floats are the values of a type \<open>'f\<close> that the model leaves open, and the
  three float operations of the manager are parameters: \<open>timeout_ms / 1000.0\<close>, which
  raises \<open>OverflowError\<close> for an integer too large to convert to a float, the sum of two
  floats, and \<open>deadline <= now\<close>. What is proved holds for every choice of them, so also
  for IEEE doubles with their rounding.\<close>

record 'f float_ops =
  ms_to_seconds :: "int \<Rightarrow> error + 'f"
  float_add :: "'f \<Rightarrow> 'f \<Rightarrow> 'f"
  float_le :: "'f \<Rightarrow> 'f \<Rightarrow> bool"

record 'f PendingTimeout =
  deadline :: 'f
  timer_ms :: int
  generation :: int

text \<open>The manager, together with what it reads from outside: the state of the modes and
  of the context (\<open>world\<close>), and the clock, as the sequence of the values that
  \<open>time.monotonic()\<close> returns and the number of readings taken so far.\<close>

record ('w, 'f) ModeManager =
  modes :: "(string \<times> 'w Mode) list"
  active :: "string option"
  pending_timeouts :: "(string \<times> 'f PendingTimeout) list"
  timer_counter :: int
  world :: 'w
  monotonic :: "nat \<Rightarrow> 'f"
  clock_reads :: nat

definition new_manager :: "'w \<Rightarrow> (nat \<Rightarrow> 'f) \<Rightarrow> ('w, 'f) ModeManager" where
  "new_manager w clock = \<lparr>modes = [], active = None, pending_timeouts = [], timer_counter = 0,
     world = w, monotonic = clock, clock_reads = 0\<rparr>"

text \<open>\<open>time.monotonic()\<close>: the next reading of the clock.\<close>

definition time_monotonic :: "('w, 'f) ModeManager \<Rightarrow> 'f \<times> ('w, 'f) ModeManager" where
  "time_monotonic m = (monotonic m (clock_reads m), m\<lparr>clock_reads := clock_reads m + 1\<rparr>)"

definition timeout_result :: ModeResult where
  "timeout_result = (mode_result False)\<lparr>status := ''timeout''\<rparr>"

definition active_mode :: "('w, 'f) ModeManager \<Rightarrow> 'w Mode option" where
  "active_mode m = (case active m of None \<Rightarrow> None | Some a \<Rightarrow> map_of (modes m) a)"

definition register_mode ::
  "'w Mode \<Rightarrow> ('w, 'f) ModeManager \<Rightarrow> (error + unit) \<times> ('w, 'f) ModeManager" where
  "register_mode md m =
     (if map_of (modes m) (mode_name md) \<noteq> None
      then (Inl (ValueError (mode_name md)), m)
      else
        (let m1 = m\<lparr>modes := AList.update (mode_name md) md (modes m)\<rparr>
         in if active m1 = None
            then (Inr (), m1\<lparr>active := Some (mode_name md), world := on_enter md None (world m1)\<rparr>)
            else (Inr (), m1)))"

definition cancel_timeout :: "string \<Rightarrow> ('w, 'f) ModeManager \<Rightarrow> ('w, 'f) ModeManager" where
  "cancel_timeout nm m = m\<lparr>pending_timeouts := AList.delete nm (pending_timeouts m)\<rparr>"

text \<open>\<open>arm_timeout\<close> increments the counter, reads the clock, and only then divides: when
  the division raises, the counter has moved and the timers are as they were.\<close>

definition arm_timeout ::
  "'f float_ops \<Rightarrow> string \<Rightarrow> int \<Rightarrow> ('w, 'f) ModeManager
   \<Rightarrow> (error + unit) \<times> ('w, 'f) ModeManager" where
  "arm_timeout ops nm ms m =
     (let m1 = m\<lparr>timer_counter := timer_counter m + 1\<rparr>
      in case time_monotonic m1 of
           (now, m2) \<Rightarrow>
             (case ms_to_seconds ops ms of
                Inl err \<Rightarrow> (Inl err, m2)
              | Inr seconds \<Rightarrow>
                  (Inr (),
                   m2\<lparr>pending_timeouts :=
                        AList.update nm
                          \<lparr>deadline = float_add ops now seconds, timer_ms = ms,
                             generation = timer_counter m2\<rparr>
                          (pending_timeouts m2)\<rparr>)))"

definition switch_mode ::
  "string \<Rightarrow> ('w, 'f) ModeManager \<Rightarrow> (error + unit) \<times> ('w, 'f) ModeManager" where
  "switch_mode nm m =
     (case map_of (modes m) nm of
        None \<Rightarrow> (Inl (KeyError nm), m)
      | Some target \<Rightarrow>
          (case active_mode m of
             None \<Rightarrow>
               (let m1 = m\<lparr>active := Some nm\<rparr>;
                    m2 = m1\<lparr>world := on_enter target None (world m1)\<rparr>
                in (Inr (), cancel_timeout nm m2))
           | Some previous \<Rightarrow>
               if mode_name previous = nm then (Inr (), m)
               else
                 (let m1 = cancel_timeout (mode_name previous) m;
                      m2 = m1\<lparr>world := on_exit previous (Some nm) (world m1)\<rparr>;
                      m3 = m2\<lparr>active := Some nm\<rparr>;
                      m4 = m3\<lparr>world := on_enter target (Some (mode_name previous)) (world m3)\<rparr>
                  in (Inr (), cancel_timeout nm m4))))"

text \<open>\<open>if result.timeout_ms:\<close> holds for a number other than 0, and
  \<open>if result.switch_to:\<close> for a string that is not empty. An error of \<open>arm_timeout\<close>
  leaves \<open>_after_mode_result\<close> before the switch.\<close>

definition after_mode_result ::
  "'f float_ops \<Rightarrow> 'w Mode \<Rightarrow> ModeResult \<Rightarrow> ('w, 'f) ModeManager
   \<Rightarrow> (error + ModeResult) \<times> ('w, 'f) ModeManager" where
  "after_mode_result ops md result m =
     (case (case timeout_ms result of
              None \<Rightarrow> (Inr (), cancel_timeout (mode_name md) m)
            | Some ms \<Rightarrow> if ms \<noteq> 0 then arm_timeout ops (mode_name md) ms m
                        else (Inr (), cancel_timeout (mode_name md) m)) of
        (Inl err, m1) \<Rightarrow> (Inl err, m1)
      | (Inr u, m1) \<Rightarrow>
          (case switch_to result of
             None \<Rightarrow> (Inr result, m1)
           | Some target \<Rightarrow>
               if target = [] then (Inr result, m1)
               else (case switch_mode target m1 of
                       (Inl err, m2) \<Rightarrow> (Inl err, m2)
                     | (Inr u, m2) \<Rightarrow> (Inr result, m2))))"

definition handle_key ::
  "'f float_ops \<Rightarrow> KeyInput \<Rightarrow> ('w, 'f) ModeManager
   \<Rightarrow> (error + ModeResult) \<times> ('w, 'f) ModeManager" where
  "handle_key ops k m =
     (case active_mode m of
        None \<Rightarrow> (Inl (RuntimeError ''No active mode registered''), m)
      | Some md \<Rightarrow>
          (case mode_handle_key md k (world m) of
             (result, w) \<Rightarrow> after_mode_result ops md result (m\<lparr>world := w\<rparr>)))"

definition trigger_timeout ::
  "'f float_ops \<Rightarrow> string \<Rightarrow> int \<Rightarrow> ('w, 'f) ModeManager
   \<Rightarrow> (error + ModeResult) \<times> ('w, 'f) ModeManager" where
  "trigger_timeout ops nm gen m =
     (case map_of (pending_timeouts m) nm of
        None \<Rightarrow> (Inr timeout_result, m)
      | Some timer \<Rightarrow>
          if generation timer \<noteq> gen then (Inr timeout_result, m)
          else
            (let m1 = cancel_timeout nm m
             in case map_of (modes m1) nm of
                  None \<Rightarrow> (Inr timeout_result, m1)
                | Some md \<Rightarrow>
                    (case mode_handle_timeout md (world m1) of
                       (result, w) \<Rightarrow> after_mode_result ops md result (m1\<lparr>world := w\<rparr>))))"

text \<open>The loops of \<open>process_timeouts\<close> and \<open>force_timeout\<close> run over a snapshot of the
  timers, firing each with the generation it had in the snapshot.\<close>

fun trigger_all ::
  "'f float_ops \<Rightarrow> (string \<times> 'f PendingTimeout) list \<Rightarrow> ('w, 'f) ModeManager
   \<Rightarrow> (error + (string \<times> ModeResult) list) \<times> ('w, 'f) ModeManager" where
  "trigger_all ops [] m = (Inr [], m)"
| "trigger_all ops ((nm, timer) # rest) m =
     (case trigger_timeout ops nm (generation timer) m of
        (Inl err, m1) \<Rightarrow> (Inl err, m1)
      | (Inr result, m1) \<Rightarrow>
          (case trigger_all ops rest m1 of
             (Inl err, m2) \<Rightarrow> (Inl err, m2)
           | (Inr results, m2) \<Rightarrow> (Inr ((nm, result) # results), m2)))"

text \<open>\<open>process_timeouts\<close> reads the clock once, for the choice of the expired timers; each
  timer armed while they fire reads it again.\<close>

definition process_timeouts ::
  "'f float_ops \<Rightarrow> ('w, 'f) ModeManager
   \<Rightarrow> (error + (string \<times> ModeResult) list) \<times> ('w, 'f) ModeManager" where
  "process_timeouts ops m =
     (case time_monotonic m of
        (now, m1) \<Rightarrow>
          trigger_all ops
            (filter (\<lambda>(nm, timer). float_le ops (deadline timer) now) (pending_timeouts m1)) m1)"

definition force_timeout ::
  "'f float_ops \<Rightarrow> string option \<Rightarrow> ('w, 'f) ModeManager
   \<Rightarrow> (error + (string \<times> ModeResult) list) \<times> ('w, 'f) ModeManager" where
  "force_timeout ops target m =
     (case target of
        Some nm \<Rightarrow>
          (case map_of (pending_timeouts m) nm of
             None \<Rightarrow> (Inr [], m)
           | Some timer \<Rightarrow>
               (case trigger_timeout ops nm (generation timer) m of
                  (Inl err, m1) \<Rightarrow> (Inl err, m1)
                | (Inr result, m1) \<Rightarrow> (Inr [(nm, result)], m1)))
      | None \<Rightarrow> trigger_all ops (pending_timeouts m) m)"

text \<open>The calls a host can make on a manager, and the manager a call leaves behind (also
  when the call raises).\<close>

datatype 'w manager_call =
    RegisterMode "'w Mode"
  | SwitchMode string
  | HandleKey KeyInput
  | ArmTimeout string int
  | CancelTimeout string
  | ProcessTimeouts
  | ForceTimeout "string option"
  | TriggerTimeout string int

fun after_call ::
  "'f float_ops \<Rightarrow> ('w, 'f) ModeManager \<Rightarrow> 'w manager_call \<Rightarrow> ('w, 'f) ModeManager" where
  "after_call ops m (RegisterMode md) = snd (register_mode md m)"
| "after_call ops m (SwitchMode nm) = snd (switch_mode nm m)"
| "after_call ops m (HandleKey k) = snd (handle_key ops k m)"
| "after_call ops m (ArmTimeout nm ms) = snd (arm_timeout ops nm ms m)"
| "after_call ops m (CancelTimeout nm) = cancel_timeout nm m"
| "after_call ops m ProcessTimeouts = snd (process_timeouts ops m)"
| "after_call ops m (ForceTimeout target) = snd (force_timeout ops target m)"
| "after_call ops m (TriggerTimeout nm gen) = snd (trigger_timeout ops nm gen m)"

definition after_calls ::
  "'f float_ops \<Rightarrow> ('w, 'f) ModeManager \<Rightarrow> 'w manager_call list \<Rightarrow> ('w, 'f) ModeManager" where
  "after_calls ops m calls = foldl (after_call ops) m calls"

text \<open>A generation \<open>gen\<close> is superseded for a mode when the counter has reached it and the
  mode has no timer or a timer of a later generation.\<close>

definition superseded :: "int \<Rightarrow> string \<Rightarrow> ('w, 'f) ModeManager \<Rightarrow> bool" where
  "superseded gen nm m \<longleftrightarrow>
     gen \<le> timer_counter m
     \<and> (case map_of (pending_timeouts m) nm of None \<Rightarrow> True | Some timer \<Rightarrow> gen < generation timer)"

definition switch_cancels :: "string \<Rightarrow> string \<Rightarrow> ('w, 'f) ModeManager \<Rightarrow> bool" where
  "switch_cancels nm target m \<longleftrightarrow>
     map_of (modes m) target \<noteq> None
     \<and> (case active_mode m of
          None \<Rightarrow> nm = target
        | Some previous \<Rightarrow> mode_name previous \<noteq> target \<and> (nm = mode_name previous \<or> nm = target))"

definition reached :: "int \<Rightarrow> ('w, 'f) ModeManager \<Rightarrow> bool" where
  "reached gen m \<longleftrightarrow> gen \<le> timer_counter m"

definition logging_mode :: "string list Mode" where
  "logging_mode = \<lparr>mode_name = ''normal'', on_enter = (\<lambda>previous w. w),
     on_exit = (\<lambda>next_mode w. w), mode_handle_key = (\<lambda>k w. (mode_result True, w)),
     mode_handle_timeout = (\<lambda>w. (timeout_result, w @ [''normal.handle_timeout'']))\<rparr>"

text \<open>One choice of the float operations, for the examples: it agrees with IEEE doubles
  on the values that occur there (\<open>1000 / 1000.0 = 1.0\<close>, \<open>500 / 1000.0 = 0.5\<close>,
  \<open>0.0 + 1.0\<close>, \<open>0.0 + 0.5\<close>, and \<open>2 ** 1024 / 1000.0\<close> raising \<open>OverflowError\<close>).\<close>

definition example_ops :: "real float_ops" where
  "example_ops = \<lparr>ms_to_seconds = (\<lambda>ms. if 2 ^ 1024 \<le> \<bar>ms\<bar> then Inl OverflowError
                                          else Inr (real_of_int ms / 1000)),
     float_add = (\<lambda>a b. a + b), float_le = (\<lambda>a b. a \<le> b)\<rparr>"

definition normal_manager :: "(string list, real) ModeManager" where
  "normal_manager = snd (register_mode logging_mode (new_manager [] (\<lambda>n. 0)))"

definition armed_once :: "(string list, real) ModeManager" where
  "armed_once = snd (arm_timeout example_ops ''normal'' 1000 normal_manager)"

definition armed_twice :: "(string list, real) ModeManager" where
  "armed_twice = snd (arm_timeout example_ops ''normal'' 500 armed_once)"

definition huge_timeout :: int where
  "huge_timeout = 2 ^ 1024"

definition arm_failed :: "(string list, real) ModeManager" where
  "arm_failed = snd (arm_timeout example_ops ''normal'' huge_timeout armed_once)"

section \<open>keymaps/registry.py: mutations\<close>

definition set_add :: "string \<Rightarrow> string list \<Rightarrow> string list" where
  "set_add x xs = (if x \<in> set xs then xs else xs @ [x])"

definition index_binding ::
  "(string \<times> (string \<times> string list) list) list \<Rightarrow> Binding
   \<Rightarrow> (string \<times> (string \<times> string list) list) list" where
  "index_binding idx b =
     (let by_signature = (case map_of idx (mode b) of None \<Rightarrow> [] | Some d \<Rightarrow> d);
          ids = (case map_of by_signature (key_signature b) of None \<Rightarrow> [] | Some s \<Rightarrow> s)
      in AList.update (mode b)
           (AList.update (key_signature b) (set_add (binding_id b) ids) by_signature) idx)"

definition remove_binding ::
  "(string \<times> (string \<times> string list) list) list \<Rightarrow> Binding
   \<Rightarrow> (string \<times> (string \<times> string list) list) list" where
  "remove_binding idx b =
     (case map_of idx (mode b) of
        None \<Rightarrow> idx
      | Some mode_bucket \<Rightarrow>
          if mode_bucket = [] then idx
          else
            (case map_of mode_bucket (key_signature b) of
               None \<Rightarrow> idx
             | Some signatures \<Rightarrow>
                 if signatures = [] then idx
                 else
                   (let signatures1 = removeAll (binding_id b) signatures;
                        mode_bucket1 =
                          (if signatures1 = [] then AList.delete (key_signature b) mode_bucket
                           else AList.update (key_signature b) signatures1 mode_bucket)
                    in if mode_bucket1 = [] then AList.delete (mode b) idx
                       else AList.update (mode b) mode_bucket1 idx)))"

definition touch_bindings :: "KeymapRegistry \<Rightarrow> KeymapRegistry" where
  "touch_bindings r = r\<lparr>revision := revision r + 1\<rparr>"

definition register_action ::
  "KeymapRegistry \<Rightarrow> ActionRef \<Rightarrow> bool \<Rightarrow> (error + ActionRef) \<times> KeymapRegistry" where
  "register_action r a replace =
     (if \<not> replace \<and> map_of (actions r) (ref_id a) \<noteq> None
      then (Inl (ValueError (ref_id a)), r)
      else (Inr a, r\<lparr>actions := AList.update (ref_id a) a (actions r)\<rparr>))"

text \<open>\<open>self._remove_binding(x); self._bindings.pop(x.id, None)\<close>\<close>

definition drop_binding :: "KeymapRegistry \<Rightarrow> Binding \<Rightarrow> KeymapRegistry" where
  "drop_binding r c =
     r\<lparr>mode_index := remove_binding (mode_index r) c,
       bindings := AList.delete (binding_id c) (bindings r)\<rparr>"

text \<open>\<open>self._bindings[b.id] = b; self._index_binding(b); self._touch_bindings()\<close>\<close>

definition store_binding :: "KeymapRegistry \<Rightarrow> Binding \<Rightarrow> KeymapRegistry" where
  "store_binding r b =
     touch_bindings
       (r\<lparr>bindings := AList.update (binding_id b) b (bindings r),
          mode_index := index_binding (mode_index r) b\<rparr>)"

definition register_binding ::
  "KeymapRegistry \<Rightarrow> Binding \<Rightarrow> bool \<Rightarrow> (error + Binding) \<times> KeymapRegistry" where
  "register_binding r b replace =
     (if map_of (actions r) (action_id b) = None then (Inl (KeyError (action_id b)), r)
      else
        (case detect_conflicts r b [] of
           Inl err \<Rightarrow> (Inl err, r)
         | Inr conflicts \<Rightarrow>
             if conflicts \<noteq> [] \<and> \<not> replace
             then (Inl (KeymapConflictError (binding_id b) (map binding_id conflicts)), r)
             else if replace then
               (let r1 = foldl drop_binding r conflicts;
                    r2 = (case map_of (bindings r1) (binding_id b) of
                            None \<Rightarrow> r1
                          | Some existing \<Rightarrow> drop_binding r1 existing)
                in (Inr b, store_binding r2 b))
             else if map_of (bindings r) (binding_id b) \<noteq> None
             then (Inl (ValueError (binding_id b)), r)
             else (Inr b, store_binding r b)))"

definition unregister_binding ::
  "KeymapRegistry \<Rightarrow> string \<Rightarrow> (error + Binding option) \<times> KeymapRegistry" where
  "unregister_binding r i =
     (case map_of (bindings r) i of
        None \<Rightarrow> (Inr None, r)
      | Some b \<Rightarrow>
          (Inr (Some b),
           touch_bindings
             (r\<lparr>bindings := AList.delete i (bindings r),
                mode_index := remove_binding (mode_index r) b\<rparr>)))"

text \<open>The keyword arguments of \<open>update_binding\<close>: a new value for each field named.
  \<open>dataclasses.replace\<close> builds the new binding and runs its \<open>__post_init__\<close>, which
  refuses an empty id, mode or action id.\<close>

record BindingChanges =
  new_id :: "string option"
  new_mode :: "string option"
  new_sequence :: "KeySequence option"
  new_action_id :: "string option"
  new_when :: "WhenClause list option"
  new_priority :: "int option"

definition no_changes :: BindingChanges where
  "no_changes = \<lparr>new_id = None, new_mode = None, new_sequence = None, new_action_id = None,
     new_when = None, new_priority = None\<rparr>"

definition replace_fields :: "Binding \<Rightarrow> BindingChanges \<Rightarrow> error + Binding" where
  "replace_fields b ch =
     (let u = \<lparr>binding_id = (case new_id ch of None \<Rightarrow> binding_id b | Some v \<Rightarrow> v),
               mode = (case new_mode ch of None \<Rightarrow> mode b | Some v \<Rightarrow> v),
               sequence = (case new_sequence ch of None \<Rightarrow> sequence b | Some v \<Rightarrow> v),
               action_id = (case new_action_id ch of None \<Rightarrow> action_id b | Some v \<Rightarrow> v),
               when_clauses = (case new_when ch of None \<Rightarrow> when_clauses b | Some v \<Rightarrow> v),
               priority = (case new_priority ch of None \<Rightarrow> priority b | Some v \<Rightarrow> v)\<rparr>
      in if binding_id u = [] then Inl (ValueError ''binding id cannot be empty'')
         else if mode u = [] then Inl (ValueError ''binding mode cannot be empty'')
         else if action_id u = [] then Inl (ValueError ''binding action_id cannot be empty'')
         else Inr u)"

definition update_binding ::
  "KeymapRegistry \<Rightarrow> string \<Rightarrow> BindingChanges \<Rightarrow> (error + Binding) \<times> KeymapRegistry" where
  "update_binding r i ch =
     (case map_of (bindings r) i of
        None \<Rightarrow> (Inl (KeyError i), r)
      | Some current \<Rightarrow>
          (case replace_fields current ch of
             Inl err \<Rightarrow> (Inl err, r)
           | Inr updated \<Rightarrow>
               if map_of (actions r) (action_id updated) = None
               then (Inl (KeyError (action_id updated)), r)
               else
                 (let r1 = r\<lparr>mode_index := remove_binding (mode_index r) current\<rparr>
                  in case detect_conflicts r1 updated [] of
                       Inl err \<Rightarrow> (Inl err, r1)
                     | Inr conflicts \<Rightarrow>
                         if conflicts \<noteq> []
                         then (Inl (KeymapConflictError (binding_id updated)
                                      (map binding_id conflicts)),
                               r1\<lparr>mode_index := index_binding (mode_index r1) current\<rparr>)
                         else (Inr updated,
                               touch_bindings
                                 (r1\<lparr>bindings := AList.update i updated (bindings r1),
                                     mode_index := index_binding (mode_index r1) updated\<rparr>)))))"

text \<open>\<open>iter_bindings\<close>, run to the end: every binding (dictionary order), or the bindings
  of one mode through the index; a binding id of the index that is not registered raises
  \<open>KeyError\<close>.\<close>

fun lookup_all :: "KeymapRegistry \<Rightarrow> string list \<Rightarrow> error + Binding list" where
  "lookup_all r [] = Inr []"
| "lookup_all r (i # ids) =
     (case lookup_binding r i of
        Inl err \<Rightarrow> Inl err
      | Inr b \<Rightarrow> (case lookup_all r ids of Inl err \<Rightarrow> Inl err | Inr bs \<Rightarrow> Inr (b # bs)))"

definition iter_bindings :: "KeymapRegistry \<Rightarrow> string option \<Rightarrow> error + Binding list" where
  "iter_bindings r target =
     (case target of
        None \<Rightarrow> Inr (map snd (bindings r))
      | Some m \<Rightarrow>
          lookup_all r
            (concat (map snd (case map_of (mode_index r) m of None \<Rightarrow> [] | Some d \<Rightarrow> d))))"

definition update_binding_in_place :: "KeymapRegistry \<Rightarrow> Binding \<Rightarrow> Binding \<Rightarrow> KeymapRegistry" where
  "update_binding_in_place r current updated =
     r\<lparr>mode_index := index_binding (remove_binding (mode_index r) current) updated,
       bindings := AList.update (binding_id current) updated (bindings r)\<rparr>"

text \<open>The sequence of a registered binding has passed \<open>KeySequence\<close>'s check (strokes not
  empty), so rebuilding it with another timeout does not raise.\<close>

definition with_timeout :: "int \<Rightarrow> Binding \<Rightarrow> Binding" where
  "with_timeout ms b = b\<lparr>sequence := \<lparr>strokes = strokes (sequence b), seq_timeout_ms = ms\<rparr>\<rparr>"

definition override_sequence_timeouts ::
  "KeymapRegistry \<Rightarrow> int \<Rightarrow> string option \<Rightarrow> string list option
   \<Rightarrow> (error + unit) \<times> KeymapRegistry" where
  "override_sequence_timeouts r ms target binding_ids =
     (if ms \<le> 0 then (Inl (ValueError ''timeout_ms must be positive''), r)
      else
        (case (case binding_ids of
                 Some ids \<Rightarrow> lookup_all r ids
               | None \<Rightarrow> iter_bindings r target) of
           Inl err \<Rightarrow> (Inl err, r)
         | Inr targets \<Rightarrow>
             if targets = [] then (Inr (), r)
             else (Inr (),
                   touch_bindings
                     (foldl (\<lambda>r b. update_binding_in_place r b (with_timeout ms b)) r targets))))"

section \<open>keymaps/resolver.py\<close>

datatype TrieNode = TrieNode (node_bindings: "string list") (children: "(string \<times> TrieNode) list")

text \<open>\<open>KeymapTrie.add_binding\<close>: walk down from the node, creating the children that are
  missing (\<open>setdefault\<close>), and append the binding id at the end of the path.\<close>

fun add_path :: "string list \<Rightarrow> string \<Rightarrow> TrieNode \<Rightarrow> TrieNode" where
  "add_path [] i (TrieNode ids cs) = TrieNode (ids @ [i]) cs"
| "add_path (t # ts) i (TrieNode ids cs) =
     TrieNode ids
       (AList.update t
          (add_path ts i (case map_of cs t of None \<Rightarrow> TrieNode [] [] | Some child \<Rightarrow> child)) cs)"

record KeymapTrie =
  trie_mode :: string
  root :: TrieNode

definition add_binding :: "KeymapTrie \<Rightarrow> Binding \<Rightarrow> KeymapTrie" where
  "add_binding trie b = trie\<lparr>root := add_path (tokens (sequence b)) (binding_id b) (root trie)\<rparr>"

definition next_tokens :: "TrieNode \<Rightarrow> string list" where
  "next_tokens node = sort (map fst (children node))"

record ResolutionResult =
  res_status :: string
  res_match :: "(Binding \<times> ActionRef) option"
  res_consumed :: nat
  next_expected :: "string list"
  res_timeout_ms :: "int option"

definition resolution_result :: "string \<Rightarrow> ResolutionResult" where
  "resolution_result s = \<lparr>res_status = s, res_match = None, res_consumed = 0,
     next_expected = [], res_timeout_ms = None\<rparr>"

definition lookup_action :: "KeymapRegistry \<Rightarrow> string \<Rightarrow> error + ActionRef" where
  "lookup_action r k = (case map_of (actions r) k of None \<Rightarrow> Inl (KeyError k) | Some a \<Rightarrow> Inr a)"

text \<open>The loop of \<open>_select_match\<close> over the binding ids of a node.\<close>

fun collect_matches ::
  "KeymapRegistry \<Rightarrow> (string \<rightharpoonup> bool) \<Rightarrow> string list \<Rightarrow> error + (Binding \<times> ActionRef) list" where
  "collect_matches r ctx [] = Inr []"
| "collect_matches r ctx (i # ids) =
     (case lookup_binding r i of
        Inl err \<Rightarrow> Inl err
      | Inr b \<Rightarrow>
          if \<not> allows b ctx then collect_matches r ctx ids
          else (case lookup_action r (action_id b) of
                  Inl err \<Rightarrow> Inl err
                | Inr a \<Rightarrow>
                    (case collect_matches r ctx ids of
                       Inl err \<Rightarrow> Inl err
                     | Inr found \<Rightarrow> Inr ((b, a) # found))))"

definition match_key :: "Binding \<times> ActionRef \<Rightarrow> int \<times> string" where
  "match_key m = (- priority (fst m), binding_id (fst m))"

definition select_match ::
  "KeymapRegistry \<Rightarrow> TrieNode \<Rightarrow> (string \<rightharpoonup> bool) \<Rightarrow> error + (Binding \<times> ActionRef) option" where
  "select_match r node ctx =
     (if node_bindings node = [] then Inr None
      else (case collect_matches r ctx (node_bindings node) of
              Inl err \<Rightarrow> Inl err
            | Inr matches \<Rightarrow>
                if matches = [] then Inr None else Inr (Some (hd (sort_key match_key matches)))))"

fun node_timeouts :: "KeymapRegistry \<Rightarrow> string list \<Rightarrow> error + int list" where
  "node_timeouts r [] = Inr []"
| "node_timeouts r (i # ids) =
     (case lookup_binding r i of
        Inl err \<Rightarrow> Inl err
      | Inr b \<Rightarrow>
          (case node_timeouts r ids of
             Inl err \<Rightarrow> Inl err
           | Inr ts \<Rightarrow> Inr (seq_timeout_ms (sequence b) # ts)))"

text \<open>The loop of \<open>_pending_timeout\<close>: the stack holds the nodes still to visit,
  \<open>stack.pop()\<close> takes the last one.\<close>

function pending_loop :: "KeymapRegistry \<Rightarrow> TrieNode list \<Rightarrow> int list \<Rightarrow> error + int list" where
  "pending_loop r stack timeouts =
     (if stack = [] then Inr timeouts
      else (case node_timeouts r (node_bindings (last stack)) of
              Inl err \<Rightarrow> Inl err
            | Inr ts \<Rightarrow>
                pending_loop r (butlast stack @ map snd (children (last stack))) (timeouts @ ts)))"
  by pat_completeness auto

termination
proof (relation "measure (\<lambda>(r, stack, timeouts). sum_list (map size stack))")
  show "wf (measure (\<lambda>(r, stack, timeouts). sum_list (map size stack)))" by simp
next
  fix r :: KeymapRegistry and stack :: "TrieNode list" and timeouts ts :: "int list"
  assume ne: "stack \<noteq> []"
  obtain ids cs where l: "last stack = TrieNode ids cs" by (cases "last stack")
  have "sum_list (map size (butlast stack)) + size (last stack) = sum_list (map size stack)"
    using ne by (induction stack) auto
  moreover have "sum_list (map size (map snd cs)) < size (TrieNode ids cs)"
    by (induction cs) auto
  then have "sum_list (map size (map snd (children (last stack)))) < size (last stack)"
    using l by simp
  ultimately show "((r, butlast stack @ map snd (children (last stack)), timeouts @ ts),
      (r, stack, timeouts)) \<in> measure (\<lambda>(r, stack, timeouts). sum_list (map size stack))"
    by simp
qed

definition pending_timeout :: "KeymapRegistry \<Rightarrow> TrieNode \<Rightarrow> error + int option" where
  "pending_timeout r node =
     (case pending_loop r (map snd (children node)) [] of
        Inl err \<Rightarrow> Inl err
      | Inr timeouts \<Rightarrow> Inr (if timeouts = [] then None else Some (min_list timeouts)))"

text \<open>The walk of \<open>resolve\<close> down the trie: \<open>Inl n\<close> when a token has no child.\<close>

fun walk :: "TrieNode \<Rightarrow> string list \<Rightarrow> nat \<Rightarrow> nat + TrieNode \<times> nat" where
  "walk node [] seen = Inr (node, seen)"
| "walk node (t # ts) seen =
     (case map_of (children node) t of
        None \<Rightarrow> Inl seen
      | Some child \<Rightarrow> walk child ts (seen + 1))"

text \<open>\<open>resolve\<close> once the trie is at hand.\<close>

definition resolve_in ::
  "KeymapRegistry \<Rightarrow> KeymapTrie \<Rightarrow> string list \<Rightarrow> (string \<rightharpoonup> bool) \<Rightarrow> error + ResolutionResult" where
  "resolve_in r trie toks ctx =
     (case walk (root trie) toks 0 of
        Inl seen \<Rightarrow> Inr ((resolution_result ''miss'')\<lparr>res_consumed := seen\<rparr>)
      | Inr (node, seen) \<Rightarrow>
          (case select_match r node ctx of
             Inl err \<Rightarrow> Inl err
           | Inr (Some m) \<Rightarrow>
               Inr ((resolution_result ''match'')\<lparr>res_match := Some m, res_consumed := seen\<rparr>)
           | Inr None \<Rightarrow>
               if next_tokens node \<noteq> []
               then (case pending_timeout r node of
                       Inl err \<Rightarrow> Inl err
                     | Inr t \<Rightarrow>
                         Inr ((resolution_result ''pending'')\<lparr>res_consumed := seen,
                                next_expected := next_tokens node, res_timeout_ms := t\<rparr>))
               else Inr ((resolution_result ''miss'')\<lparr>res_consumed := seen\<rparr>)))"

text \<open>The resolver's state is its cache: per mode, a revision and the trie built then.\<close>

type_synonym resolver_cache = "(string \<times> int \<times> KeymapTrie) list"

definition ensure_trie ::
  "resolver_cache \<Rightarrow> KeymapRegistry \<Rightarrow> string \<Rightarrow> (error + KeymapTrie) \<times> resolver_cache" where
  "ensure_trie cache r m =
     (case (case map_of cache m of
              Some (built, trie) \<Rightarrow> if built = revision r then Some trie else None
            | None \<Rightarrow> None) of
        Some trie \<Rightarrow> (Inr trie, cache)
      | None \<Rightarrow>
          (case iter_bindings r (Some m) of
             Inl err \<Rightarrow> (Inl err, cache)
           | Inr bs \<Rightarrow>
               (let trie = foldl add_binding \<lparr>trie_mode = m, root = TrieNode [] []\<rparr> bs
                in (Inr trie, AList.update m (revision r, trie) cache))))"

definition resolve_keys ::
  "resolver_cache \<Rightarrow> KeymapRegistry \<Rightarrow> string \<Rightarrow> string list \<Rightarrow> (string \<rightharpoonup> bool)
   \<Rightarrow> (error + ResolutionResult) \<times> resolver_cache" where
  "resolve_keys cache r m toks ctx =
     (case ensure_trie cache r m of
        (Inl err, cache1) \<Rightarrow> (Inl err, cache1)
      | (Inr trie, cache1) \<Rightarrow> (resolve_in r trie toks ctx, cache1))"

definition reset :: "resolver_cache \<Rightarrow> string option \<Rightarrow> resolver_cache" where
  "reset cache target = (case target of None \<Rightarrow> [] | Some m \<Rightarrow> AList.delete m cache)"

definition signatures_distinct :: "(string \<times> (string \<times> string list) list) list \<Rightarrow> bool" where
  "signatures_distinct idx \<longleftrightarrow> (\<forall>m d. map_of idx m = Some d \<longrightarrow> distinct (map fst d))"

section \<open>The invariant of the registry\<close>

definition tables_ok ::
  "(string \<rightharpoonup> ActionRef) \<Rightarrow> (string \<rightharpoonup> Binding)
   \<Rightarrow> (string \<times> (string \<times> string list) list) list \<Rightarrow> bool" where
  "tables_ok A B idx \<longleftrightarrow>
     (\<forall>i b. B i = Some b \<longrightarrow> binding_id b = i \<and> A (action_id b) \<noteq> None)
     \<and> signatures_distinct idx
     \<and> (\<forall>m sg i. i \<in> set (bucket idx m sg)
           \<longleftrightarrow> (\<exists>b. B i = Some b \<and> mode b = m \<and> key_signature b = sg))"

definition registry_ok :: "KeymapRegistry \<Rightarrow> bool" where
  "registry_ok r \<longleftrightarrow>
     tables_ok (map_of (actions r)) (map_of (bindings r)) (mode_index r)
     \<and> distinct (map fst (bindings r))"

section \<open>What one call does to the registry\<close>

text \<open>A call leaves a registry that satisfies the invariant, and either moves the revision
  on by one or leaves the revision and the registered bindings as they were.\<close>

definition follows :: "KeymapRegistry \<Rightarrow> KeymapRegistry \<Rightarrow> bool" where
  "follows r r' \<longleftrightarrow>
     registry_ok r'
     \<and> (revision r' = revision r + 1
        \<or> revision r' = revision r \<and> map_of (bindings r') = map_of (bindings r))"

section \<open>The trie as a set of paths\<close>

text \<open>The node at the end of a path, if the trie has one.\<close>

fun sub :: "TrieNode \<Rightarrow> string list \<Rightarrow> TrieNode option" where
  "sub t [] = Some t"
| "sub t (k # p) = (case map_of (children t) k of None \<Rightarrow> None | Some c \<Rightarrow> sub c p)"

definition ids_at :: "TrieNode \<Rightarrow> string list \<Rightarrow> string list" where
  "ids_at t p = (case sub t p of None \<Rightarrow> [] | Some n \<Rightarrow> node_bindings n)"

fun keys_distinct :: "TrieNode \<Rightarrow> bool" where
  "keys_distinct (TrieNode ids cs) \<longleftrightarrow>
     distinct (map fst cs) \<and> (\<forall>c \<in> set (map snd cs). keys_distinct c)"

fun all_ids :: "TrieNode \<Rightarrow> string set" where
  "all_ids (TrieNode ids cs) = set ids \<union> (\<Union>c \<in> set (map snd cs). all_ids c)"

section \<open>Tries with the same paths resolve alike\<close>

definition similar :: "TrieNode \<Rightarrow> TrieNode \<Rightarrow> bool" where
  "similar t1 t2 \<longleftrightarrow>
     keys_distinct t1 \<and> keys_distinct t2
     \<and> (\<forall>p. set (ids_at t1 p) = set (ids_at t2 p))
     \<and> (\<forall>p. sub t1 p = None \<longleftrightarrow> sub t2 p = None)"

text \<open>Every binding id stored in the trie is registered.\<close>

definition known :: "KeymapRegistry \<Rightarrow> TrieNode \<Rightarrow> bool" where
  "known r t \<longleftrightarrow> (\<forall>p. \<forall>i \<in> set (ids_at t p). map_of (bindings r) i \<noteq> None)"

definition match_of :: "KeymapRegistry \<Rightarrow> string \<Rightarrow> Binding \<times> ActionRef" where
  "match_of r i =
     (the (map_of (bindings r) i),
      the (map_of (actions r) (action_id (the (map_of (bindings r) i)))))"

definition timeout_of :: "KeymapRegistry \<Rightarrow> string \<Rightarrow> int" where
  "timeout_of r i = seq_timeout_ms (sequence (the (map_of (bindings r) i)))"

section \<open>A resolver beside a registry\<close>

text \<open>The calls a client makes on a registry and on one resolver built over it.\<close>

datatype registry_call =
    RegisterAction ActionRef bool
  | RegisterBinding Binding bool
  | UnregisterBinding string
  | UpdateBinding string BindingChanges
  | OverrideSequenceTimeouts int "string option" "string list option"
  | Resolve string "string list" "string \<rightharpoonup> bool"
  | Reset "string option"

fun after_registry_call ::
  "KeymapRegistry \<times> resolver_cache \<Rightarrow> registry_call \<Rightarrow> KeymapRegistry \<times> resolver_cache" where
  "after_registry_call (r, cache) (RegisterAction a replace) =
     (snd (register_action r a replace), cache)"
| "after_registry_call (r, cache) (RegisterBinding b replace) =
     (snd (register_binding r b replace), cache)"
| "after_registry_call (r, cache) (UnregisterBinding i) = (snd (unregister_binding r i), cache)"
| "after_registry_call (r, cache) (UpdateBinding i ch) = (snd (update_binding r i ch), cache)"
| "after_registry_call (r, cache) (OverrideSequenceTimeouts ms target ids) =
     (snd (override_sequence_timeouts r ms target ids), cache)"
| "after_registry_call (r, cache) (Resolve m toks ctx) = (r, snd (resolve_keys cache r m toks ctx))"
| "after_registry_call (r, cache) (Reset target) = (r, reset cache target)"

text \<open>A new registry, a new resolver over it, and the calls made since.\<close>

definition session :: "registry_call list \<Rightarrow> KeymapRegistry \<times> resolver_cache" where
  "session calls = foldl after_registry_call (new_registry, []) calls"

text \<open>An \<open>update_binding\<close> call that does not give the binding another id.\<close>

fun keeps_id :: "registry_call \<Rightarrow> bool" where
  "keeps_id (UpdateBinding i ch) \<longleftrightarrow> new_id ch = None \<or> new_id ch = Some i"
| "keeps_id _ \<longleftrightarrow> True"

text \<open>A cached trie is never ahead of the registry, and one cached at the present revision
  was built from the bindings that the mode has now, in some order.\<close>

definition cache_ok :: "KeymapRegistry \<Rightarrow> resolver_cache \<Rightarrow> bool" where
  "cache_ok r cache \<longleftrightarrow>
     (\<forall>m built trie. map_of cache m = Some (built, trie) \<longrightarrow>
        built \<le> revision r
        \<and> (built = revision r \<longrightarrow>
             (\<exists>bs. root trie = root (foldl add_binding \<lparr>trie_mode = m, root = TrieNode [] []\<rparr> bs)
                  \<and> set bs = {b. \<exists>i. map_of (bindings r) i = Some b \<and> mode b = m})))"

definition x_sequence :: KeySequence where
  "x_sequence = \<lparr>strokes = [\<lparr>stroke_key = ''x'', stroke_modifiers = []\<rparr>], seq_timeout_ms = 1000\<rparr>"

definition x_binding :: Binding where
  "x_binding = \<lparr>binding_id = ''c'', mode = ''normal'', sequence = x_sequence,
     action_id = ''core.test'', when_clauses = [], priority = 0\<rparr>"

definition example_calls :: "registry_call list" where
  "example_calls =
     [RegisterAction test_action False,
      RegisterBinding (gg_binding ''a'' []) False,
      Resolve ''normal'' [''g''] Map.empty,
      RegisterBinding x_binding False]"

definition renaming_calls :: "registry_call list" where
  "renaming_calls =
     [RegisterAction test_action False,
      RegisterBinding (gg_binding ''a'' [\<lparr>flag = ''p'', expected = True\<rparr>]) False,
      RegisterBinding (gg_binding ''b'' [\<lparr>flag = ''p'', expected = False\<rparr>]) False,
      UpdateBinding ''b'' (no_changes\<lparr>new_id := Some ''a''\<rparr>),
      UnregisterBinding ''a'',
      RegisterBinding x_binding False,
      Resolve ''normal'' [''x''] Map.empty,
      UpdateBinding ''b'' (no_changes\<lparr>new_sequence := Some x_sequence, new_when := Some []\<rparr>)]"

definition renamed_binding :: Binding where
  "renamed_binding = gg_binding ''a'' [\<lparr>flag = ''p'', expected = False\<rparr>]"

text \<open>The calls that build \<open>gg_registry\<close>.\<close>

definition gg_calls :: "WhenClause list \<Rightarrow> registry_call list" where
  "gg_calls w = [RegisterAction test_action False, RegisterBinding (gg_binding ''first'' w) False]"

section \<open>The undo timeline is linear\<close>

lemma push_inv: "timeline_inv (push t e)"
  by (simp add: push_def timeline_inv_def Let_def)

lemma undo_inv: "timeline_inv t \<Longrightarrow> timeline_inv (snd (undo t))"
  by (auto simp: undo_def timeline_inv_def can_undo_def getitem_def Let_def split: sum.splits)

lemma redo_inv: "timeline_inv t \<Longrightarrow> timeline_inv (snd (redo t))"
  by (auto simp: redo_def timeline_inv_def can_redo_def getitem_def Let_def split: sum.splits)

lemma apply_op_inv: "timeline_inv t \<Longrightarrow> timeline_inv (apply_op t x)"
  by (cases x) (simp_all add: push_inv undo_inv redo_inv)

lemma foldl_apply_op_inv: "timeline_inv t \<Longrightarrow> timeline_inv (foldl apply_op t ops)"
  by (induction ops arbitrary: t) (simp_all add: apply_op_inv)

lemma run_timeline_inv: "timeline_inv (run_timeline ops)"
  unfolding run_timeline_def
  by (rule foldl_apply_op_inv) (simp add: timeline_inv_def empty_timeline_def)

lemma push_truncates:
  "timeline_inv t \<Longrightarrow> entries (push t e) = take (nat (index t + 1)) (entries t) @ [e]"
  by (auto simp: push_def timeline_inv_def Let_def slice_to_def)

lemma push_index: "index (push t e) = int (length (entries (push t e))) - 1"
  by (simp add: push_def Let_def)

lemma redo_after_push: "redo (push t e) = (Inr None, push t e)"
  by (simp add: redo_def can_redo_def push_index)

lemma undo_None_iff: "timeline_inv t \<Longrightarrow> fst (undo t) = Inr None \<longleftrightarrow> index t < 0"
  by (auto simp: undo_def timeline_inv_def can_undo_def getitem_def Let_def split: sum.splits)

lemma undo_Some:
  "timeline_inv t \<Longrightarrow> 0 \<le> index t \<Longrightarrow>
   undo t = (Inr (Some (entries t ! nat (index t))), t\<lparr>index := index t - 1\<rparr>)"
  by (auto simp: undo_def timeline_inv_def can_undo_def getitem_def Let_def)

lemma redo_None_iff:
  "timeline_inv t \<Longrightarrow> fst (redo t) = Inr None \<longleftrightarrow> index t = int (length (entries t)) - 1"
  by (auto simp: redo_def timeline_inv_def can_redo_def getitem_def Let_def split: sum.splits)

lemma redo_Some:
  "timeline_inv t \<Longrightarrow> index t < int (length (entries t)) - 1 \<Longrightarrow>
   redo t = (Inr (Some (entries t ! nat (index t + 1))), t\<lparr>index := index t + 1\<rparr>)"
  by (auto simp: redo_def timeline_inv_def can_redo_def getitem_def Let_def)

lemma run_example:
  "run_timeline [Push entry_a, Push entry_b, Undo] = \<lparr>entries = [entry_a, entry_b], index = 0\<rparr>"
  by (simp add: run_timeline_def empty_timeline_def push_def undo_def can_undo_def getitem_def
      Let_def)

text \<open>
  Claim C6. For every timeline reachable from the empty one by \<open>push\<close>, \<open>undo\<close> and
  \<open>redo\<close>: a \<open>push\<close> made while the index is before the last entry keeps exactly the
  entries up to the index and appends the new one, and \<open>redo\<close> right after any \<open>push\<close>
  returns \<open>None\<close>; \<open>undo\<close> returns \<open>None\<close> exactly when the index is below 0 and
  otherwise returns the entry at the index and moves the index down by one; \<open>redo\<close> returns
  \<open>None\<close> exactly when the index is at the last entry and otherwise moves the index up by
  one and returns the entry there.
\<close>

theorem undo_timeline_linear:
  assumes "t = run_timeline ops"
  shows "(index t < int (length (entries t)) - 1 \<longrightarrow>
            entries (push t e) = take (nat (index t + 1)) (entries t) @ [e])
       \<and> redo (push t e) = (Inr None, push t e)
       \<and> (fst (undo t) = Inr None \<longleftrightarrow> index t < 0)
       \<and> (0 \<le> index t \<longrightarrow>
            undo t = (Inr (Some (entries t ! nat (index t))), t\<lparr>index := index t - 1\<rparr>))
       \<and> (fst (redo t) = Inr None \<longleftrightarrow> index t = int (length (entries t)) - 1)
       \<and> (index t < int (length (entries t)) - 1 \<longrightarrow>
            redo t = (Inr (Some (entries t ! nat (index t + 1))), t\<lparr>index := index t + 1\<rparr>))"
proof -
  have inv: "timeline_inv t" using assms by (simp add: run_timeline_inv)
  show ?thesis
    using inv push_truncates[OF inv] redo_after_push undo_None_iff[OF inv] undo_Some[OF inv]
      redo_None_iff[OF inv] redo_Some[OF inv]
    by blast
qed

theorem undo_timeline_linear_witness:
  "index (run_timeline [Push entry_a, Push entry_b, Undo])
     < int (length (entries (run_timeline [Push entry_a, Push entry_b, Undo]))) - 1
   \<and> entries (push (run_timeline [Push entry_a, Push entry_b, Undo]) entry_c) = [entry_a, entry_c]
   \<and> fst (redo (push (run_timeline [Push entry_a, Push entry_b, Undo]) entry_c)) = Inr None
   \<and> 0 \<le> index (run_timeline [Push entry_a, Push entry_b, Undo])
   \<and> undo (run_timeline [Push entry_a, Push entry_b, Undo])
       = (Inr (Some entry_a), \<lparr>entries = [entry_a, entry_b], index = -1\<rparr>)
   \<and> redo (run_timeline [Push entry_a, Push entry_b, Undo])
       = (Inr (Some entry_b), \<lparr>entries = [entry_a, entry_b], index = 1\<rparr>)"
  using undo_timeline_linear[of "run_timeline [Push entry_a, Push entry_b, Undo]"
      "[Push entry_a, Push entry_b, Undo]" entry_c]
  by (simp add: run_example)

section \<open>Validation comes before every mutation\<close>

lemma ensure_cursor_ok: "in_bounds d c \<Longrightarrow> ensure_cursor d c = Inr c"
  by (auto simp: in_bounds_def ensure_cursor_def line_count_def getitem_def Let_def
      split: prod.splits)

lemma ensure_cursor_fails:
  "\<not> in_bounds d c \<Longrightarrow> \<exists>msg. ensure_cursor d c = Inl (BufferValidationError msg c)"
  by (auto simp: in_bounds_def ensure_cursor_def line_count_def getitem_def Let_def
      split: prod.splits)

lemma replace_range_invalid:
  assumes "\<not> in_bounds (document b) start \<or> \<not> in_bounds (document b) end"
  shows "\<exists>msg c. replace_range b start end txt lbl = (Inl (BufferValidationError msg c), b)"
proof (cases "in_bounds (document b) start")
  case False
  then obtain msg where "ensure_cursor (document b) start = Inl (BufferValidationError msg start)"
    using ensure_cursor_fails by blast
  then show ?thesis by (simp add: replace_range_def)
next
  case True
  then have s: "ensure_cursor (document b) start = Inr start" by (rule ensure_cursor_ok)
  from True assms obtain msg where
    "ensure_cursor (document b) end = Inl (BufferValidationError msg end)"
    using ensure_cursor_fails by blast
  with s show ?thesis by (simp add: replace_range_def)
qed

lemma abc_document: "document abc_buffer = \<lparr>lines = [[97, 98, 99]], version = 0, dirty = False\<rparr>"
  by (simp add: abc_buffer_def buffer_from_text_def from_text_def splitlines_def
      is_linebreak_def endswith_newline_def)

text \<open>
  Claim C8. When the start or the end cursor of \<open>replace_range\<close> (and so of
  \<open>delete_range\<close> and \<open>insert_text\<close>) has a row outside \<open>[0, line_count)\<close> or a
  column outside \<open>[0, len(line)]\<close>, the call raises a \<open>BufferValidationError\<close> and the
  buffer it leaves behind is the buffer it was given: document, state, registers and undo
  timeline are untouched.
\<close>

theorem replace_range_all_or_nothing:
  "(\<not> in_bounds (document b) start \<or> \<not> in_bounds (document b) end \<longrightarrow>
      (\<exists>msg c. replace_range b start end txt lbl = (Inl (BufferValidationError msg c), b))
    \<and> (\<exists>msg c. delete_range b start end = (Inl (BufferValidationError msg c), b)))
   \<and> (\<not> in_bounds (document b) pos \<longrightarrow>
      (\<exists>msg c. insert_text b txt (Some pos) = (Inl (BufferValidationError msg c), b)))
   \<and> (\<not> in_bounds (document b) (cursor (state b)) \<longrightarrow>
      (\<exists>msg c. insert_text b txt None = (Inl (BufferValidationError msg c), b)))"
  using replace_range_invalid[of b start "end"] replace_range_invalid[of b pos pos]
    replace_range_invalid[of b "cursor (state b)" "cursor (state b)"]
  by (simp add: delete_range_def insert_text_def Let_def)

theorem replace_range_all_or_nothing_witness:
  "\<not> in_bounds (document abc_buffer) (0, 4)
   \<and> in_bounds (document abc_buffer) (0, 0)
   \<and> replace_range abc_buffer (0, 0) (0, 4) [120] ''edit''
       = (Inl (BufferValidationError ''Column out of range'' (0, 4)), abc_buffer)
   \<and> delete_range abc_buffer (0, 0) (0, 4)
       = (Inl (BufferValidationError ''Column out of range'' (0, 4)), abc_buffer)
   \<and> \<not> in_bounds (document abc_buffer) (1, 0)
   \<and> insert_text abc_buffer [120] (Some (1, 0))
       = (Inl (BufferValidationError ''Row out of range'' (1, 0)), abc_buffer)"
  using replace_range_all_or_nothing[of abc_buffer "(0, 0)" "(0, 4)" "[120]" "''edit''" "(1, 0)"]
  by (simp add: abc_document in_bounds_def line_count_def replace_range_def delete_range_def
      insert_text_def ensure_cursor_def getitem_def)

section \<open>What a successful edit leaves alone\<close>

lemma replace_range_abc:
  "replace_range abc_buffer (0, 1) (0, 2) [120, 121] ''edit'' =
     (Inr \<lparr>delta_version = 0, delta_text = [97, 120, 121, 99], delta_cursor = (0, 3),
           delta_selection = None, delta_label = ''edit''\<rparr>,
      abc_buffer\<lparr>document := \<lparr>lines = [[97, 120, 121, 99]], version = 0, dirty = False\<rparr>,
        state := default_state\<lparr>cursor := (0, 3)\<rparr>,
        undo_timeline := \<lparr>entries = [\<lparr>label = ''edit'', before_text = [97, 98, 99],
           after_text = [97, 120, 121, 99], cursor_before = (0, 1), cursor_after = (0, 3)\<rparr>],
           index = 0\<rparr>\<rparr>)"
  by (simp add: abc_buffer_def buffer_from_text_def from_text_def splitlines_def
      is_linebreak_def endswith_newline_def replace_range_def ensure_cursor_def line_count_def
      getitem_def snapshot_def offset_for_cursor_def slice_to_def slice_from_def
      cursor_from_offset_def set_cursor_def commit_def push_def empty_timeline_def
      default_state_def Let_def)

text \<open>
  Claim C10. A successful \<open>replace_range\<close> changes only the document, the cursor,
  \<open>last_change_tick\<close> and the undo timeline: the selection, the active register name, the
  register bank and the buffer name are as before the call.
\<close>

theorem replace_range_frame:
  assumes "replace_range b start end txt lbl = (Inr d, b')"
  shows "selection (state b') = selection (state b)
       \<and> active_register (state b') = active_register (state b)
       \<and> registers b' = registers b
       \<and> name b' = name b"
  using assms
  by (auto simp: replace_range_def commit_def set_cursor_def Let_def
      split: sum.splits prod.splits)

theorem replace_range_frame_witness:
  "fst (replace_range abc_buffer (0, 1) (0, 2) [120, 121] ''edit'')
     = Inr \<lparr>delta_version = 0, delta_text = [97, 120, 121, 99], delta_cursor = (0, 3),
            delta_selection = None, delta_label = ''edit''\<rparr>
   \<and> selection (state (snd (replace_range abc_buffer (0, 1) (0, 2) [120, 121] ''edit''))) = None
   \<and> active_register (state (snd (replace_range abc_buffer (0, 1) (0, 2) [120, 121] ''edit'')))
       = active_register (state abc_buffer)
   \<and> registers (snd (replace_range abc_buffer (0, 1) (0, 2) [120, 121] ''edit''))
       = registers abc_buffer
   \<and> name (snd (replace_range abc_buffer (0, 1) (0, 2) [120, 121] ''edit'')) = ''default''"
  using replace_range_frame[OF replace_range_abc]
  unfolding replace_range_abc
  by (simp add: abc_buffer_def buffer_from_text_def default_state_def)

section \<open>The document version after an edit\<close>

lemma replace_range_version_zero:
  assumes "replace_range b start end s lbl = (Inr d, b')"
  shows "version (document b') = 0 \<and> delta_version d = 0
       \<and> last_change_tick (state b') = 0"
  using assms
  by (auto simp: replace_range_def commit_def set_cursor_def from_text_def Let_def
      split: sum.splits prod.splits)

text \<open>
  Claim C1 says that a successful \<open>replace_range\<close> on a document of version \<open>v\<close> leaves a
  document of version \<open>v + 1\<close>. The source builds the new document with
  \<open>BufferDocument.from_text\<close>, which sets the version to 0. On \<open>Buffer.from_text("abc")\<close>
  (version 0), replacing \<open>(0,1)..(0,2)\<close> by \<open>"xy"\<close> succeeds and the document, the returned
  delta and \<open>last_change_tick\<close> all carry version 0, where the claim requires 1.
\<close>

theorem replace_range_version_not_bumped:
  "version (document abc_buffer) = 0
   \<and> version (document (snd (replace_range abc_buffer (0, 1) (0, 2) [120, 121] ''edit''))) = 0
   \<and> fst (replace_range abc_buffer (0, 1) (0, 2) [120, 121] ''edit'')
       = Inr \<lparr>delta_version = 0, delta_text = [97, 120, 121, 99], delta_cursor = (0, 3),
              delta_selection = None, delta_label = ''edit''\<rparr>
   \<and> version (document (snd (replace_range abc_buffer (0, 1) (0, 2) [120, 121] ''edit'')))
       \<noteq> version (document abc_buffer) + 1"
  by (simp add: replace_range_abc abc_document)

section \<open>Replace, then read back\<close>

lemma linebreak_LF: "is_linebreak 10"
  by (simp add: is_linebreak_def)

lemma linebreak_CR: "is_linebreak 13"
  by (simp add: is_linebreak_def)

lemma split_acc_Nil_iff: "split_acc cur s = [] \<longleftrightarrow> cur = [] \<and> s = []"
proof (induction cur s rule: split_acc.induct)
  case (1 cur)
  show ?case by simp
next
  case (2 cur c cs)
  show ?case
  proof (cases "c = 13")
    case True
    then show ?thesis by (cases cs) simp_all
  next
    case False
    then show ?thesis using 2 by (cases "is_linebreak c") simp_all
  qed
qed

lemma lines_from_text: "lines (from_text s) = text_lines [] s"
  by (simp add: from_text_def text_lines_def splitlines_def Let_def)

lemma text_lines_not_Nil: "text_lines cur s \<noteq> []"
  by (simp add: text_lines_def split_acc_Nil_iff)

lemma flatten_Cons: "ls \<noteq> [] \<Longrightarrow> flatten_lines (l # ls) = l @ 10 # flatten_lines ls"
  by (cases ls) simp_all

lemma split_acc_LF: "split_acc cur (10 # cs) = cur # split_acc [] cs"
  by (simp add: linebreak_LF)

lemma split_acc_plain:
  "\<not> is_linebreak c \<Longrightarrow> split_acc cur (c # cs) = split_acc (cur @ [c]) cs"
  using linebreak_CR by auto

lemma flatten_text_lines: "lf_only s \<Longrightarrow> flatten_lines (text_lines cur s) = cur @ s"
proof (induction s arbitrary: cur)
  case Nil
  then show ?case by (simp add: text_lines_def endswith_newline_def)
next
  case (Cons c cs)
  have lf: "lf_only cs" using Cons.prems by (simp add: lf_only_def)
  show ?case
  proof (cases "c = 10")
    case True
    show ?thesis
    proof (cases "cs = []")
      case True
      with \<open>c = 10\<close> show ?thesis
        by (simp add: text_lines_def endswith_newline_def split_acc_LF del: split_acc.simps(2))
    next
      case False
      then have "text_lines cur (c # cs) = cur # text_lines [] cs"
        using True
        by (simp add: text_lines_def endswith_newline_def split_acc_Nil_iff split_acc_LF
            del: split_acc.simps(2))
      then show ?thesis
        using Cons.IH[OF lf, of "[]"] True by (simp add: flatten_Cons text_lines_not_Nil)
    qed
  next
    case False
    then have nb: "\<not> is_linebreak c"
      using Cons.prems by (auto simp: lf_only_def)
    have "text_lines cur (c # cs) = text_lines (cur @ [c]) cs"
      using False
      by (cases "cs = []")
        (simp_all add: text_lines_def endswith_newline_def split_acc_plain[OF nb]
          del: split_acc.simps(2))
    then show ?thesis using Cons.IH[OF lf, of "cur @ [c]"] by simp
  qed
qed

lemma split_acc_CR_last: "split_acc cur [13] = [cur]"
  by simp

lemma split_acc_CRLF: "split_acc cur (13 # 10 # ds) = cur # split_acc [] ds"
  by simp

lemma split_acc_CR: "d \<noteq> 10 \<Longrightarrow> split_acc cur (13 # d # ds) = cur # split_acc [] (d # ds)"
  by simp

lemma split_acc_break:
  "is_linebreak c \<Longrightarrow> c \<noteq> 13 \<Longrightarrow> split_acc cur (c # cs) = cur # split_acc [] cs"
  by simp

lemma clean_lines_Cons:
  "clean_lines (l # ls) \<longleftrightarrow> (\<forall>c \<in> set l. \<not> is_linebreak c) \<and> clean_lines ls"
  by (simp add: clean_lines_def)

lemma clean_lines_Nil: "clean_lines []"
  by (simp add: clean_lines_def)

lemma split_acc_clean:
  "\<forall>c \<in> set cur. \<not> is_linebreak c \<Longrightarrow> clean_lines (split_acc cur s)"
proof (induction s arbitrary: cur rule: length_induct)
  case (1 s)
  note IH = "1.IH"[rule_format]
  show ?case
  proof (cases s)
    case Nil
    then show ?thesis using "1.prems" by (simp add: clean_lines_Cons clean_lines_Nil)
  next
    case (Cons c cs)
    have rest: "clean_lines (split_acc [] cs)"
      by (rule IH) (simp_all add: Cons)
    show ?thesis
    proof (cases "c = 13")
      case True
      show ?thesis
      proof (cases cs)
        case Nil
        then show ?thesis
          unfolding Cons True Nil split_acc_CR_last
          using "1.prems" by (simp add: clean_lines_Cons clean_lines_Nil)
      next
        case ds: (Cons d ds)
        show ?thesis
        proof (cases "d = 10")
          case True
          have "clean_lines (split_acc [] ds)"
            by (rule IH) (simp_all add: Cons ds)
          then show ?thesis
            unfolding Cons \<open>c = 13\<close> ds True split_acc_CRLF
            using "1.prems" by (simp add: clean_lines_Cons)
        next
          case False
          show ?thesis
            unfolding Cons \<open>c = 13\<close> ds split_acc_CR[OF False]
            using "1.prems" rest[unfolded ds] by (simp add: clean_lines_Cons)
        qed
      qed
    next
      case False
      show ?thesis
      proof (cases "is_linebreak c")
        case True
        show ?thesis
          unfolding Cons split_acc_break[OF True False]
          using "1.prems" rest by (simp add: clean_lines_Cons)
      next
        case nb: False
        have "clean_lines (split_acc (cur @ [c]) cs)"
          by (rule IH) (use "1.prems" nb in \<open>auto simp: Cons\<close>)
        then show ?thesis
          unfolding Cons split_acc_plain[OF nb] .
      qed
    qed
  qed
qed

lemma from_text_clean: "clean_lines (lines (from_text s))"
proof -
  have "clean_lines (split_acc [] s)" by (rule split_acc_clean) simp
  then show ?thesis
    by (simp add: lines_from_text text_lines_def clean_lines_def)
qed

lemma flatten_clean_lf_only: "clean_lines ls \<Longrightarrow> lf_only (flatten_lines ls)"
proof (induction ls rule: flatten_lines.induct)
  case 1
  show ?case by (simp add: lf_only_def)
next
  case (2 l)
  then show ?case by (simp add: lf_only_def clean_lines_def)
next
  case (3 l v va)
  then show ?case by (auto simp: lf_only_def clean_lines_def)
qed

lemma row_offset_0: "row_offset ls 0 = 0"
  by (simp add: row_offset_def)

lemma row_offset_Cons: "row_offset (l # ls) (Suc r) = int (length l) + 1 + row_offset ls r"
  by (simp add: row_offset_def)

lemma row_offset_nonneg: "0 \<le> row_offset ls r"
  unfolding row_offset_def by (rule sum_list_nonneg) auto

lemma row_offset_Suc:
  "r < length ls \<Longrightarrow> row_offset ls (Suc r) = row_offset ls r + int (length (ls ! r)) + 1"
  by (simp add: row_offset_def take_Suc_conv_app_nth)

lemma row_offset_mono: "r \<le> r' \<Longrightarrow> row_offset ls r \<le> row_offset ls r'"
proof (induction ls arbitrary: r r')
  case Nil
  then show ?case by (simp add: row_offset_def)
next
  case (Cons l ls)
  show ?case
  proof (cases r)
    case 0
    then show ?thesis using row_offset_nonneg by (simp add: row_offset_0)
  next
    case (Suc k)
    then obtain k' where r': "r' = Suc k'" and "k \<le> k'" using Cons.prems by (cases r') auto
    then show ?thesis using Cons.IH[of k k'] Suc by (simp add: row_offset_Cons)
  qed
qed

lemma offset_rows_eq: "r \<le> length ls \<Longrightarrow> offset_rows ls r = Inr (row_offset ls r)"
proof (induction ls r rule: offset_rows.induct)
  case (1 ls)
  show ?case by (simp add: row_offset_0)
next
  case (2 n)
  then show ?case by simp
next
  case (3 l ls n)
  then show ?case by (simp add: row_offset_Cons)
qed

lemma length_flatten:
  "ls \<noteq> [] \<Longrightarrow> int (length (flatten_lines ls)) = row_offset ls (length ls) - 1"
proof (induction ls rule: flatten_lines.induct)
  case 1
  then show ?case by simp
next
  case (2 l)
  show ?case by (simp add: row_offset_def)
next
  case (3 l v va)
  then show ?case by (simp add: row_offset_def)
qed

lemma offset_le_length:
  assumes "r < length ls" "c \<le> int (length (ls ! r))"
  shows "row_offset ls r + c \<le> int (length (flatten_lines ls))"
proof -
  have "ls \<noteq> []" using assms by auto
  have "row_offset ls (Suc r) \<le> row_offset ls (length ls)"
    by (rule row_offset_mono) (use assms in simp)
  then show ?thesis
    using row_offset_Suc[OF assms(1)] length_flatten[OF \<open>ls \<noteq> []\<close>] assms(2) by simp
qed

lemma cursor_scan_offset:
  "r < length ls \<Longrightarrow> 0 \<le> c \<Longrightarrow> c \<le> int (length (ls ! r)) \<Longrightarrow>
   cursor_scan ls row run (run + row_offset ls r + c) = Some (row + int r, c)"
proof (induction ls arbitrary: r row run)
  case Nil
  then show ?case by simp
next
  case (Cons l ls)
  show ?case
  proof (cases r)
    case 0
    then show ?thesis using Cons.prems by (simp add: row_offset_0)
  next
    case (Suc k)
    have k: "k < length ls" "c \<le> int (length (ls ! k))" using Cons.prems Suc by simp_all
    have "cursor_scan ls (row + 1) (run + int (length l) + 1)
            (run + int (length l) + 1 + row_offset ls k + c) = Some (row + 1 + int k, c)"
      by (rule Cons.IH[OF k(1) Cons.prems(2) k(2)])
    moreover have "\<not> run + row_offset (l # ls) r + c \<le> run + int (length l)"
      using row_offset_nonneg[of ls k] Cons.prems(2) Suc by (simp add: row_offset_Cons)
    ultimately show ?thesis using Suc by (simp add: row_offset_Cons algebra_simps)
  qed
qed

lemma cursor_scan_total:
  "ls \<noteq> [] \<Longrightarrow> run \<le> off \<Longrightarrow> off \<le> run + int (length (flatten_lines ls)) \<Longrightarrow>
   \<exists>r c. cursor_scan ls row run off = Some (row + int r, c) \<and> r < length ls \<and> 0 \<le> c
       \<and> c \<le> int (length (ls ! r)) \<and> run + row_offset ls r + c = off"
proof (induction ls arbitrary: row run)
  case Nil
  then show ?case by simp
next
  case (Cons l ls)
  show ?case
  proof (cases "off \<le> run + int (length l)")
    case True
    then have "cursor_scan (l # ls) row run off = Some (row + int 0, off - run)" by simp
    then show ?thesis using True Cons.prems(2)
      by (intro exI[of _ 0] exI[of _ "off - run"]) (simp add: row_offset_0)
  next
    case False
    then have ne: "ls \<noteq> []" using Cons.prems(3) by (cases ls) auto
    have lo: "run + int (length l) + 1 \<le> off" using False by simp
    have hi: "off \<le> run + int (length l) + 1 + int (length (flatten_lines ls))"
      using Cons.prems(3) ne by (simp add: flatten_Cons)
    obtain r c where rc: "cursor_scan ls (row + 1) (run + int (length l) + 1) off
          = Some (row + 1 + int r, c)" "r < length ls" "0 \<le> c" "c \<le> int (length (ls ! r))"
        "run + int (length l) + 1 + row_offset ls r + c = off"
      using Cons.IH[OF ne lo hi, of "row + 1"] by blast
    show ?thesis
      using rc False
      by (intro exI[of _ "Suc r"] exI[of _ c]) (simp add: row_offset_Cons)
  qed
qed

lemma clean_no_LF: "clean_lines ls \<Longrightarrow> l \<in> set ls \<Longrightarrow> 10 \<notin> set l"
  using linebreak_LF by (auto simp: clean_lines_def)

lemma count_list_absent: "x \<notin> set xs \<Longrightarrow> count_list xs x = 0"
  by (induction xs) auto

lemma text_cursor_plain: "10 \<notin> set s \<Longrightarrow> text_cursor s = (0, int (length s))"
proof -
  assume a: "10 \<notin> set s"
  have tw: "takeWhile (\<lambda>c. c \<noteq> 10) (rev s) = rev s"
    using a by auto
  show ?thesis unfolding text_cursor_def tw using a by (simp add: count_list_absent)
qed

lemma text_cursor_line:
  "10 \<notin> set l \<Longrightarrow> text_cursor (l @ 10 # s) = (1 + fst (text_cursor s), snd (text_cursor s))"
  by (simp add: text_cursor_def count_list_absent takeWhile_tail)

lemma cursor_scan_text:
  "clean_lines ls \<Longrightarrow> ls \<noteq> [] \<Longrightarrow> n \<le> length (flatten_lines ls) \<Longrightarrow>
   cursor_scan ls row run (run + int n)
     = Some (row + fst (text_cursor (take n (flatten_lines ls))),
             snd (text_cursor (take n (flatten_lines ls))))"
proof (induction ls arbitrary: row run n)
  case Nil
  then show ?case by simp
next
  case (Cons l ls)
  have nl: "10 \<notin> set l" using Cons.prems(1) clean_no_LF by simp
  have cl: "clean_lines ls" using Cons.prems(1) by (simp add: clean_lines_def)
  show ?case
  proof (cases "n \<le> length l")
    case True
    have "take n (flatten_lines (l # ls)) = take n l"
      using True by (cases ls) simp_all
    moreover have "10 \<notin> set (take n l)" using nl by (auto dest: in_set_takeD)
    ultimately show ?thesis using True by (simp add: text_cursor_plain)
  next
    case False
    then have ne: "ls \<noteq> []" using Cons.prems(3) by (cases ls) auto
    define m where "m = n - length l - 1"
    have n: "n = length l + 1 + m" using False by (simp add: m_def)
    have m: "m \<le> length (flatten_lines ls)"
      using Cons.prems(3) ne by (simp add: flatten_Cons n)
    have tk: "take n (flatten_lines (l # ls)) = l @ 10 # take m (flatten_lines ls)"
      using ne by (simp add: flatten_Cons n)
    have "cursor_scan ls (row + 1) (run + int (length l) + 1) (run + int (length l) + 1 + int m)
        = Some (row + 1 + fst (text_cursor (take m (flatten_lines ls))),
                snd (text_cursor (take m (flatten_lines ls))))"
      by (rule Cons.IH[OF cl ne m])
    then show ?thesis
      using False unfolding tk text_cursor_line[OF nl] by (simp add: n algebra_simps)
  qed
qed

lemma row_offset_strict:
  assumes "r2 < r1" "r1 \<le> length ls"
  shows "row_offset ls r2 + int (length (ls ! r2)) + 1 \<le> row_offset ls r1"
proof -
  have "r2 < length ls" using assms by simp
  then have "row_offset ls (Suc r2) = row_offset ls r2 + int (length (ls ! r2)) + 1"
    by (rule row_offset_Suc)
  moreover have "row_offset ls (Suc r2) \<le> row_offset ls r1"
    by (rule row_offset_mono) (use assms in simp)
  ultimately show ?thesis by simp
qed

lemma in_bounds_iff:
  "in_bounds d (row, col) \<longleftrightarrow>
     0 \<le> row \<and> nat row < length (lines d) \<and> 0 \<le> col \<and> col \<le> int (length (lines d ! nat row))"
  by (auto simp: in_bounds_def line_count_def)

lemma offset_in_bounds:
  "in_bounds d (row, col) \<Longrightarrow>
   offset_for_cursor d (row, col) = Inr (row_offset (lines d) (nat row) + col)"
  by (simp add: in_bounds_iff offset_for_cursor_def snapshot_def offset_rows_eq)

lemma offset_strict_mono:
  assumes "in_bounds d a" "in_bounds d b" "cursor_gt a b"
    "offset_for_cursor d a = Inr oa" "offset_for_cursor d b = Inr ob"
  shows "ob < oa"
proof -
  obtain ra ca where a: "a = (ra, ca)" by (cases a)
  obtain rb cb where b: "b = (rb, cb)" by (cases b)
  have oa: "oa = row_offset (lines d) (nat ra) + ca"
    using assms(1,4) offset_in_bounds unfolding a by simp
  have ob: "ob = row_offset (lines d) (nat rb) + cb"
    using assms(2,5) offset_in_bounds unfolding b by simp
  have ba: "0 \<le> ra" "nat ra < length (lines d)" "0 \<le> ca"
    using assms(1) unfolding a in_bounds_iff by simp_all
  have bb: "0 \<le> rb" "nat rb < length (lines d)" "cb \<le> int (length (lines d ! nat rb))"
    using assms(2) unfolding b in_bounds_iff by simp_all
  from assms(3) consider "rb < ra" | "ra = rb" "cb < ca"
    unfolding a b cursor_gt_def by auto
  then show ?thesis
  proof cases
    case 1
    then have "nat rb < nat ra" using bb(1) by simp
    from row_offset_strict[OF this] ba(2)
    have "row_offset (lines d) (nat rb) + int (length (lines d ! nat rb)) + 1
            \<le> row_offset (lines d) (nat ra)" by simp
    then show ?thesis using bb(3) ba(3) unfolding oa ob by simp
  next
    case 2
    then show ?thesis unfolding oa ob by simp
  qed
qed

lemma replace_range_success:
  assumes "in_bounds (document b) start" "in_bounds (document b) end"
    and "offset_for_cursor (document b) start = Inr so"
    and "offset_for_cursor (document b) end = Inr eo"
    and "new = slice_to (flatten_lines (lines (document b))) so @ s
                @ slice_from (flatten_lines (lines (document b))) eo"
    and "cursor_from_offset (from_text new) (so + int (length s)) = Inr ca"
  shows "\<exists>d b'. replace_range b start end s lbl = (Inr d, b') \<and> document b' = from_text new
           \<and> cursor (state b') = ca"
proof -
  obtain r c where ca: "ca = (r, c)" by (cases ca)
  show ?thesis
    unfolding replace_range_def
    using ensure_cursor_ok[OF assms(1)] ensure_cursor_ok[OF assms(2)] assms(3,4,6)
    unfolding assms(5) ca
    by (simp add: Let_def commit_def set_cursor_def snapshot_def)
qed

lemma get_text_range_success:
  assumes "in_bounds (document b) start" "in_bounds (document b) end"
    and "\<not> cursor_gt start end"
    and "offset_for_cursor (document b) start = Inr so"
    and "offset_for_cursor (document b) end = Inr eo"
  shows "get_text_range b start end = Inr (slice (flatten_lines (lines (document b))) so eo)"
  unfolding get_text_range_def
  using ensure_cursor_ok[OF assms(1)] ensure_cursor_ok[OF assms(2)] assms(3,4,5)
  by (simp add: Let_def snapshot_def)

lemma cursor_from_offset_total:
  assumes "lines d \<noteq> []" "0 \<le> off" "off \<le> int (length (flatten_lines (lines d)))"
  shows "\<exists>ca. cursor_from_offset d off = Inr ca \<and> in_bounds d ca
           \<and> offset_for_cursor d ca = Inr off"
proof -
  obtain r c where rc: "cursor_scan (lines d) 0 0 off = Some (0 + int r, c)"
      "r < length (lines d)" "0 \<le> c" "c \<le> int (length (lines d ! r))"
      "0 + row_offset (lines d) r + c = off"
    using cursor_scan_total[OF assms(1), of 0 off 0] assms(2,3) by auto
  have ib: "in_bounds d (int r, c)" using rc by (simp add: in_bounds_iff)
  have "cursor_from_offset d off = Inr (int r, c)"
    using rc(1) by (simp add: cursor_from_offset_def snapshot_def)
  then show ?thesis using ib offset_in_bounds[OF ib] rc(5) by simp
qed

lemma in_bounds_lines_not_Nil: "in_bounds d c \<Longrightarrow> lines d \<noteq> []"
  by (cases c) (auto simp: in_bounds_iff)

lemma offset_range:
  assumes "in_bounds d c" "offset_for_cursor d c = Inr off"
  shows "0 \<le> off \<and> off \<le> int (length (flatten_lines (lines d)))"
proof -
  obtain row col where c: "c = (row, col)" by (cases c)
  have ib: "0 \<le> row" "nat row < length (lines d)" "0 \<le> col"
      "col \<le> int (length (lines d ! nat row))"
    using assms(1) unfolding c in_bounds_iff by simp_all
  have off: "off = row_offset (lines d) (nat row) + col"
    using assms offset_in_bounds unfolding c by simp
  show ?thesis
    using offset_le_length[OF ib(2) ib(4)] row_offset_nonneg[of "lines d" "nat row"] ib(3)
    unfolding off by simp
qed

text \<open>In a document whose lines hold no line boundary, the cursor at an offset is read off
  the text before the offset, so it survives any change of the text behind it.\<close>

lemma cursor_stable:
  assumes cl: "clean_lines (lines d)" and cl': "clean_lines (lines d')"
    and ib: "in_bounds d c" and off: "offset_for_cursor d c = Inr off"
    and ne: "lines d' \<noteq> []"
    and len: "nat off \<le> length (flatten_lines (lines d'))"
    and pre: "take (nat off) (flatten_lines (lines d')) = take (nat off) (flatten_lines (lines d))"
  shows "in_bounds d' c \<and> offset_for_cursor d' c = Inr off"
proof -
  obtain row col where c: "c = (row, col)" by (cases c)
  have b: "0 \<le> row" "nat row < length (lines d)" "0 \<le> col"
      "col \<le> int (length (lines d ! nat row))"
    using ib unfolding c in_bounds_iff by simp_all
  have o: "off = row_offset (lines d) (nat row) + col"
    using ib off offset_in_bounds unfolding c by simp
  have rng: "0 \<le> off" "off \<le> int (length (flatten_lines (lines d)))"
    using offset_range[OF ib off] by simp_all
  have dne: "lines d \<noteq> []" using ib by (rule in_bounds_lines_not_Nil)
  have "cursor_scan (lines d) 0 0 (0 + row_offset (lines d) (nat row) + col)
          = Some (0 + int (nat row), col)"
    by (rule cursor_scan_offset[OF b(2) b(3) b(4)])
  then have s1: "cursor_scan (lines d) 0 0 off = Some (row, col)" using b(1) o by simp
  have "cursor_scan (lines d) 0 0 (0 + int (nat off))
          = Some (0 + fst (text_cursor (take (nat off) (flatten_lines (lines d)))),
                  snd (text_cursor (take (nat off) (flatten_lines (lines d)))))"
    by (rule cursor_scan_text[OF cl dne]) (use rng in simp)
  then have tc: "text_cursor (take (nat off) (flatten_lines (lines d))) = (row, col)"
    using s1 rng(1) by (simp add: prod_eq_iff)
  have "cursor_scan (lines d') 0 0 (0 + int (nat off))
          = Some (0 + fst (text_cursor (take (nat off) (flatten_lines (lines d')))),
                  snd (text_cursor (take (nat off) (flatten_lines (lines d')))))"
    by (rule cursor_scan_text[OF cl' ne len])
  then have s2: "cursor_scan (lines d') 0 0 off = Some (row, col)"
    using rng(1) unfolding pre tc by simp
  have off': "off \<le> int (length (flatten_lines (lines d')))" using len rng(1) by simp
  obtain ca where ca: "cursor_from_offset d' off = Inr ca" "in_bounds d' ca"
      "offset_for_cursor d' ca = Inr off"
    using cursor_from_offset_total[OF ne rng(1) off'] by blast
  have "ca = (row, col)" using ca(1) s2 by (simp add: cursor_from_offset_def snapshot_def)
  then show ?thesis using ca(2,3) unfolding c by simp
qed

lemma lf_only_parts:
  "lf_only a \<Longrightarrow> lf_only s \<Longrightarrow> lf_only (take n a @ s @ drop m a)"
  by (auto simp: lf_only_def dest: in_set_takeD in_set_dropD)

text \<open>
  What the edit achieves. On a buffer whose document is clean (as every document built by
  \<open>from_text\<close> is), for in-bounds cursors \<open>start \<le> end\<close> and a text whose only line
  boundaries are LF, \<open>replace_range(start, end, text)\<close> succeeds, the post-edit cursor
  lies at character offset \<open>offset(start) + len(text)\<close> of the new document, and
  \<open>get_text_range(start, post-edit cursor)\<close> returns the text exactly.
\<close>

theorem replace_then_get_round_trip:
  assumes cl: "clean_lines (lines (document b))" and lf: "lf_only s"
    and ibs: "in_bounds (document b) start" and ibe: "in_bounds (document b) end"
    and ord: "\<not> cursor_gt start end"
    and so: "offset_for_cursor (document b) start = Inr so"
  shows "\<exists>d b'. replace_range b start end s lbl = (Inr d, b')
           \<and> offset_for_cursor (document b') (cursor (state b')) = Inr (so + int (length s))
           \<and> get_text_range b' start (cursor (state b')) = Inr s"
proof -
  define before where "before = flatten_lines (lines (document b))"
  obtain re ce where e: "end = (re, ce)" by (cases "end")
  have eo: "offset_for_cursor (document b) end = Inr (row_offset (lines (document b)) (nat re) + ce)"
    using ibe offset_in_bounds unfolding e by simp
  define eo' where "eo' = row_offset (lines (document b)) (nat re) + ce"
  have rs: "0 \<le> so" "so \<le> int (length before)"
    using offset_range[OF ibs so] by (simp_all add: before_def)
  have re: "0 \<le> eo'" "eo' \<le> int (length before)"
    using offset_range[OF ibe eo] by (simp_all add: before_def eo'_def)
  define new where "new = take (nat so) before @ s @ drop (nat eo') before"
  have new_eq: "new = slice_to before so @ s @ slice_from before eo'"
    using rs(1) re(1) by (simp add: new_def slice_to_def slice_from_def)
  have lfn: "lf_only new"
    unfolding new_def
    by (rule lf_only_parts[OF _ lf]) (simp add: before_def flatten_clean_lf_only[OF cl])
  have flat: "flatten_lines (lines (from_text new)) = new"
    using flatten_text_lines[OF lfn, of "[]"] by (simp add: lines_from_text)
  have ne: "lines (from_text new) \<noteq> []"
    by (simp add: lines_from_text text_lines_not_Nil)
  have cl': "clean_lines (lines (from_text new))" by (rule from_text_clean)
  have len_so: "length (take (nat so) before) = nat so" using rs by simp
  have pre: "take (nat so) new = take (nat so) before"
    unfolding new_def using len_so by simp
  have len_new: "nat so + length s \<le> length new"
    unfolding new_def using len_so by simp
  have st: "in_bounds (from_text new) start \<and> offset_for_cursor (from_text new) start = Inr so"
    by (rule cursor_stable[OF cl cl' ibs so ne])
      (use len_new pre in \<open>simp_all add: flat before_def\<close>)
  have "so + int (length s) \<le> int (length (flatten_lines (lines (from_text new))))"
    using len_new rs(1) unfolding flat by simp
  then obtain ca where ca: "cursor_from_offset (from_text new) (so + int (length s)) = Inr ca"
      "in_bounds (from_text new) ca"
      "offset_for_cursor (from_text new) ca = Inr (so + int (length s))"
    using cursor_from_offset_total[OF ne, of "so + int (length s)"] rs(1) by auto
  obtain d b' where res: "replace_range b start end s lbl = (Inr d, b')"
      "document b' = from_text new" "cursor (state b') = ca"
    using replace_range_success[OF ibs ibe so eo[folded eo'_def] new_eq[unfolded before_def] ca(1)]
    by blast
  have ngt: "\<not> cursor_gt start ca"
  proof
    assume "cursor_gt start ca"
    from offset_strict_mono[OF conjunct1[OF st] ca(2) this conjunct2[OF st] ca(3)]
    show False by simp
  qed
  have "slice new so (so + int (length s)) = s"
    using rs(1) len_new len_so unfolding slice_def slice_bound_def new_def
    by (simp add: nat_add_distrib min_def)
  then have "get_text_range b' start ca = Inr s"
    using get_text_range_success[of b' start ca so "so + int (length s)"] st ca(2,3) ngt
    unfolding res(2) by (simp add: flat)
  then show ?thesis using res ca(3) by auto
qed

lemma replace_range_abc_newline:
  "replace_range abc_buffer (0, 1) (0, 2) [120, 10, 121] ''edit'' =
     (Inr \<lparr>delta_version = 0, delta_text = [97, 120, 10, 121, 99], delta_cursor = (1, 1),
           delta_selection = None, delta_label = ''edit''\<rparr>,
      abc_buffer\<lparr>document := \<lparr>lines = [[97, 120], [121, 99]], version = 0, dirty = False\<rparr>,
        state := default_state\<lparr>cursor := (1, 1)\<rparr>,
        undo_timeline := \<lparr>entries = [\<lparr>label = ''edit'', before_text = [97, 98, 99],
           after_text = [97, 120, 10, 121, 99], cursor_before = (0, 1), cursor_after = (1, 1)\<rparr>],
           index = 0\<rparr>\<rparr>)"
  by (simp add: abc_buffer_def buffer_from_text_def from_text_def splitlines_def
      is_linebreak_def endswith_newline_def replace_range_def ensure_cursor_def line_count_def
      getitem_def snapshot_def offset_for_cursor_def slice_to_def slice_from_def
      cursor_from_offset_def set_cursor_def commit_def push_def empty_timeline_def
      default_state_def Let_def)

theorem replace_then_get_round_trip_witness:
  "clean_lines (lines (document abc_buffer))
   \<and> lf_only [120, 10, 121]
   \<and> in_bounds (document abc_buffer) (0, 1)
   \<and> in_bounds (document abc_buffer) (0, 2)
   \<and> \<not> cursor_gt (0, 1) (0, 2)
   \<and> offset_for_cursor (document abc_buffer) (0, 1) = Inr 1
   \<and> cursor (state (snd (replace_range abc_buffer (0, 1) (0, 2) [120, 10, 121] ''edit''))) = (1, 1)
   \<and> offset_for_cursor
        (document (snd (replace_range abc_buffer (0, 1) (0, 2) [120, 10, 121] ''edit'')))
        (1, 1) = Inr 4
   \<and> get_text_range (snd (replace_range abc_buffer (0, 1) (0, 2) [120, 10, 121] ''edit''))
        (0, 1) (1, 1) = Inr [120, 10, 121]"
proof -
  have h: "clean_lines (lines (document abc_buffer))" "lf_only [120, 10, 121]"
    "in_bounds (document abc_buffer) (0, 1)" "in_bounds (document abc_buffer) (0, 2)"
    "\<not> cursor_gt (0, 1) (0, 2)" "offset_for_cursor (document abc_buffer) (0, 1) = Inr 1"
    by (simp_all add: abc_document clean_lines_def lf_only_def is_linebreak_def in_bounds_def
        line_count_def cursor_gt_def offset_for_cursor_def snapshot_def)
  show ?thesis
    using h replace_then_get_round_trip[OF h, of "''edit''"]
    unfolding replace_range_abc_newline
    by (simp add: default_state_def)
qed

lemma replace_range_crlf:
  "replace_range two_line_buffer (0, 1) (1, 1) [88, 13, 10, 89] ''edit'' =
     (Inr \<lparr>delta_version = 0, delta_text = [97, 88, 13, 10, 89, 100], delta_cursor = (1, 2),
           delta_selection = None, delta_label = ''edit''\<rparr>,
      two_line_buffer\<lparr>document := \<lparr>lines = [[97, 88], [89, 100]], version = 0, dirty = False\<rparr>,
        state := default_state\<lparr>cursor := (1, 2)\<rparr>,
        undo_timeline := \<lparr>entries = [\<lparr>label = ''edit'', before_text = [97, 98, 10, 99, 100],
           after_text = [97, 88, 13, 10, 89, 100], cursor_before = (0, 1), cursor_after = (1, 2)\<rparr>],
           index = 0\<rparr>\<rparr>)"
  by (simp add: two_line_buffer_def buffer_from_text_def from_text_def splitlines_def
      is_linebreak_def endswith_newline_def replace_range_def ensure_cursor_def line_count_def
      getitem_def snapshot_def offset_for_cursor_def slice_to_def slice_from_def
      cursor_from_offset_def set_cursor_def commit_def push_def empty_timeline_def
      default_state_def Let_def)

text \<open>
  Claim C3 fails in the code. \<open>replace_range\<close> computes offsets, the post-edit cursor and
  the trailing empty line by counting one LF per line break, but it rebuilds the document
  with \<open>from_text\<close>, which splits with \<open>str.splitlines\<close> and so also breaks at CR, CRLF
  (and VT, FF, FS, GS, RS, NEL, LS, PS) and drops the boundary. In the buffer \<open>"ab\ncd"\<close>,
  \<open>replace_range((0,1), (1,1), "X\r\nY")\<close> succeeds; the delta and the undo entry hold
  \<open>"aX\r\nYd"\<close>, the document becomes \<open>["aX", "Yd"]\<close>, the post-edit cursor is \<open>(1,2)\<close>,
  at offset \<open>5 = 1 + 4\<close> as the claim has it, and reading back from \<open>(0,1)\<close> to the
  cursor gives \<open>"X\nYd"\<close> where the claim requires \<open>"X\r\nY"\<close>.
\<close>

theorem replace_range_loses_carriage_return:
  "in_bounds (document two_line_buffer) (0, 1)
   \<and> in_bounds (document two_line_buffer) (1, 1)
   \<and> \<not> cursor_gt (0, 1) (1, 1)
   \<and> offset_for_cursor (document two_line_buffer) (0, 1) = Inr 1
   \<and> fst (replace_range two_line_buffer (0, 1) (1, 1) [88, 13, 10, 89] ''edit'')
       = Inr \<lparr>delta_version = 0, delta_text = [97, 88, 13, 10, 89, 100], delta_cursor = (1, 2),
              delta_selection = None, delta_label = ''edit''\<rparr>
   \<and> lines (document (snd (replace_range two_line_buffer (0, 1) (1, 1) [88, 13, 10, 89] ''edit'')))
       = [[97, 88], [89, 100]]
   \<and> offset_for_cursor
        (document (snd (replace_range two_line_buffer (0, 1) (1, 1) [88, 13, 10, 89] ''edit'')))
        (1, 2) = Inr 5
   \<and> get_text_range (snd (replace_range two_line_buffer (0, 1) (1, 1) [88, 13, 10, 89] ''edit''))
        (0, 1) (1, 2) = Inr [88, 10, 89, 100]"
  unfolding replace_range_crlf
  by (simp add: two_line_buffer_def buffer_from_text_def from_text_def splitlines_def
      is_linebreak_def endswith_newline_def ensure_cursor_def line_count_def
      getitem_def snapshot_def offset_for_cursor_def slice_to_def slice_from_def
      default_state_def Let_def in_bounds_def cursor_gt_def get_text_range_def slice_def
      slice_bound_def)

section \<open>Command-line text input and the operator pipeline\<close>

lemma concat_butlast_chars:
  "xs \<noteq> [] \<Longrightarrow> \<forall>x \<in> set xs. length x = 1 \<Longrightarrow> concat (butlast xs) = butlast (concat xs)"
proof (induction xs)
  case Nil
  then show ?case by simp
next
  case (Cons x xs)
  show ?case
  proof (cases "xs = []")
    case True
    then show ?thesis using Cons.prems by (cases x) auto
  next
    case False
    then have ne: "concat xs \<noteq> []" using Cons.prems by (cases xs) auto
    have "concat (butlast xs) = butlast (concat xs)"
      using Cons.IH[OF False] Cons.prems(2) by simp
    then show ?thesis using ne False by (simp add: butlast_append del: concat_eq_Nil_conv)
  qed
qed

text \<open>
  Claim C4, as amended. A \<open>BACKSPACE\<close> key that reaches \<open>_handle_text_input\<close> while
  something is typed removes the last typed entry (the last character, when every key
  contributed one character), refreshes the command state text, and returns a consumed
  result of status \<open>editing\<close> that requests no mode switch, whether or not the text
  becomes empty.
\<close>

theorem backspace_stays_in_command_mode:
  assumes "key k = ''BACKSPACE''" and "typed m \<noteq> []"
  shows "handle_text_input k m =
           (\<lparr>consumed = True, switch_to = None, status = ''editing'', message = None,
             timeout_ms = None\<rparr>,
            m\<lparr>typed := butlast (typed m), command_state_text := concat (butlast (typed m))\<rparr>)
       \<and> ((\<forall>x \<in> set (typed m). length x = 1) \<longrightarrow>
           current_command (snd (handle_text_input k m)) = butlast (current_command m))"
  using assms concat_butlast_chars[of "typed m"]
  by (simp add: handle_text_input_def mode_result_def sync_command_state_def
      current_command_def)

theorem backspace_stays_in_command_mode_witness:
  "key backspace_key = ''BACKSPACE'' \<and> typed typed_w \<noteq> []
   \<and> handle_text_input backspace_key typed_w =
       (\<lparr>consumed = True, switch_to = None, status = ''editing'', message = None,
         timeout_ms = None\<rparr>,
        \<lparr>typed = [], pending = [], command_state_text = [], emitted = []\<rparr>)
   \<and> current_command (snd (handle_text_input backspace_key typed_w)) = []"
  using backspace_stays_in_command_mode[of backspace_key typed_w]
  by (simp add: backspace_key_def typed_w_def current_command_def)

text \<open>
  The claim says that a backspace which empties the text leaves Command mode. With
  \<open>"w"\<close> typed, backspace empties the text and the result's \<open>switch_to\<close> is \<open>None\<close>.
\<close>

theorem backspace_to_empty_counterexample:
  "current_command typed_w \<noteq> []
   \<and> current_command (snd (handle_text_input backspace_key typed_w)) = []
   \<and> switch_to (fst (handle_text_input backspace_key typed_w)) = None"
  by (simp add: backspace_key_def typed_w_def current_command_def handle_text_input_def
      mode_result_def sync_command_state_def)

lemma keys_split: "takeWhile P keys @ drop (length (takeWhile P keys)) keys = keys"
  by (metis append_take_drop_id takeWhile_eq_take)

text \<open>
  Claim C5, as amended. After stage 1 has taken the leading digit tokens as the count
  (and \<open>int\<close> has accepted them) and stage 2 the next token as the motion, the pipeline
  produces a plan exactly when a token remains: that token is the operator, the motion
  and the count are those of stages 1 and 2, the register is \<open>"\<close> and the raw input is
  the whole token list. When no token remains after the motion, no plan is produced,
  although a motion exists.
\<close>

theorem operator_pipeline_plan:
  assumes "digits = takeWhile isdigit keys"
    and "remaining = drop (length digits) keys"
    and "digits = [] \<or> to_int (concat digits) \<noteq> None"
  shows "parse isdigit to_int keys =
           Inr (case remaining of
                  m # op # others \<Rightarrow>
                    Some \<lparr>operator_id = op, motion_id = Some m,
                          plan_count = (if digits = [] then None else to_int (concat digits)),
                          register_name = [CHR 0x22], raw_input = keys\<rparr>
                | _ \<Rightarrow> None)"
proof -
  have split: "digits @ remaining = keys"
    unfolding assms(1,2) by (rule keys_split)
  show ?thesis
  proof (cases "digits = []")
    case True
    then have cp: "count_parse isdigit to_int keys new_draft = Inr (keys, new_draft)"
      using assms(1) by (simp add: count_parse_def new_draft_def Let_def)
    have r: "remaining = keys" using split True by simp
    show ?thesis
      unfolding parse_def cp r using True
      by (auto simp: motion_parse_def resolve_def no_motion_def new_draft_def Let_def
          split: list.splits)
  next
    case False
    then obtain n where n: "to_int (concat digits) = Some n" using assms(3) by auto
    have cp: "count_parse isdigit to_int keys new_draft
                = Inr (remaining, new_draft\<lparr>raw_keys := digits, draft_count := Some n\<rparr>)"
      using False n assms(1,2) by (simp add: count_parse_def new_draft_def Let_def)
    show ?thesis
      unfolding parse_def cp using False n split
      by (auto simp: motion_parse_def resolve_def no_motion_def new_draft_def Let_def
          split: list.splits)
  qed
qed

theorem operator_pipeline_plan_witness:
  "takeWhile ascii_isdigit [''3'', ''w'', ''d''] = [''3'']
   \<and> drop (length [''3'']) [''3'', ''w'', ''d''] = [''w'', ''d'']
   \<and> ascii_int (concat [''3'']) = Some 3
   \<and> parse ascii_isdigit ascii_int [''3'', ''w'', ''d''] =
       Inr (Some \<lparr>operator_id = ''d'', motion_id = Some ''w'', plan_count = Some 3,
                  register_name = [CHR 0x22], raw_input = [''3'', ''w'', ''d'']\<rparr>)"
proof -
  have h: "[''3''] = takeWhile ascii_isdigit [''3'', ''w'', ''d'']"
    "[''w'', ''d''] = drop (length [''3'']) [''3'', ''w'', ''d'']"
    "[''3''] = [] \<or> ascii_int (concat [''3'']) \<noteq> None"
    by (simp_all add: ascii_isdigit_def ascii_int_def)
  have i: "ascii_int (concat [''3'']) = Some 3"
    by (simp add: ascii_isdigit_def ascii_int_def)
  show ?thesis
    using operator_pipeline_plan[where isdigit = ascii_isdigit and to_int = ascii_int, OF h]
      h(1)[symmetric] i
    by simp
qed

text \<open>
  The claim says a plan is produced whenever a motion exists. For the single token
  \<open>d\<close> stage 2 records the motion \<open>d\<close>, no token remains, the fresh draft has no
  operator, and \<open>resolve\<close> returns \<open>None\<close>.
\<close>

theorem motion_without_operator_counterexample:
  "motion_parse [''d''] new_draft = ([], new_draft\<lparr>motion := Some ''d'', raw_keys := [''d'']\<rparr>)
   \<and> \<not> no_motion (snd (motion_parse [''d''] new_draft))
   \<and> parse ascii_isdigit ascii_int [''d''] = Inr None"
  by (simp add: motion_parse_def new_draft_def no_motion_def parse_def count_parse_def
      resolve_def ascii_isdigit_def Let_def)

section \<open>Conflicts between bindings\<close>

lemma distinct_fold_update:
  "distinct (map fst d) \<Longrightarrow>
   distinct (map fst (foldl (\<lambda>d c. AList.update (flag c) (expected c) d) d cs))"
  by (induction cs arbitrary: d) (simp_all add: distinct_update)

lemma distinct_when_map: "distinct (map fst (when_map b))"
  unfolding when_map_def by (rule distinct_fold_update) simp

lemma dict_eq_iff:
  assumes "distinct (map fst a)" "distinct (map fst b)"
  shows "dict_eq a b \<longleftrightarrow> map_of a = map_of b"
proof
  assume eq: "dict_eq a b"
  show "map_of a = map_of b"
  proof
    fix k
    show "map_of a k = map_of b k"
    proof (cases "map_of a k")
      case None
      show ?thesis
      proof (cases "map_of b k")
        case None
        with \<open>map_of a k = None\<close> show ?thesis by simp
      next
        case (Some v)
        then have "(k, v) \<in> set b" by (rule map_of_SomeD)
        then have "map_of a k = Some v" using eq by (auto simp: dict_eq_def list_all_iff)
        with None show ?thesis by simp
      qed
    next
      case (Some v)
      then have "(k, v) \<in> set a" by (rule map_of_SomeD)
      then have "map_of b k = Some v" using eq by (auto simp: dict_eq_def list_all_iff)
      with Some show ?thesis by simp
    qed
  qed
next
  assume eq: "map_of a = map_of b"
  have "\<And>k v. (k, v) \<in> set a \<Longrightarrow> map_of b k = Some v"
    using assms(1) eq[symmetric] by simp
  moreover have "\<And>k v. (k, v) \<in> set b \<Longrightarrow> map_of a k = Some v"
    using assms(2) eq by simp
  ultimately show "dict_eq a b" by (auto simp: dict_eq_def list_all_iff)
qed

lemma disagree_iff:
  assumes "distinct (map fst a)"
  shows "disagree a b \<longleftrightarrow> (\<exists>f e e'. map_of a f = Some e \<and> map_of b f = Some e' \<and> e' \<noteq> e)"
proof
  assume "disagree a b"
  then obtain f e where fe: "(f, e) \<in> set a"
      "(case map_of b f of None \<Rightarrow> False | Some e' \<Rightarrow> e' \<noteq> e)"
    by (auto simp: disagree_def list_ex_iff)
  then obtain e' where "map_of b f = Some e'" "e' \<noteq> e" by (auto split: option.splits)
  moreover have "map_of a f = Some e" using fe(1) assms by simp
  ultimately show "\<exists>f e e'. map_of a f = Some e \<and> map_of b f = Some e' \<and> e' \<noteq> e" by blast
next
  assume "\<exists>f e e'. map_of a f = Some e \<and> map_of b f = Some e' \<and> e' \<noteq> e"
  then obtain f e e' where h: "map_of a f = Some e" "map_of b f = Some e'" "e' \<noteq> e" by blast
  then have "(f, e) \<in> set a" by (auto dest: map_of_SomeD)
  moreover have "case (f, e) of (f, e) \<Rightarrow>
      (case map_of b f of None \<Rightarrow> False | Some e' \<Rightarrow> e' \<noteq> e)"
    using h by simp
  ultimately show "disagree a b" unfolding disagree_def list_ex_iff by blast
qed

lemma when_map_Nil_iff: "when_map b = [] \<longleftrightarrow> when_clauses b = []"
proof -
  have "\<And>d. foldl (\<lambda>d c. AList.update (flag c) (expected c) d) d cs = [] \<longleftrightarrow> d = [] \<and> cs = []"
    for cs :: "WhenClause list"
    by (induction cs) simp_all
  then show ?thesis by (simp add: when_map_def)
qed

lemma contexts_overlap_iff:
  "contexts_overlap left right \<longleftrightarrow>
     (when_clauses left = [] \<and> when_clauses right = [])
     \<or> (when_clauses left \<noteq> [] \<and> when_clauses right \<noteq> []
        \<and> map_of (when_map left) = map_of (when_map right))"
proof (cases "when_clauses left = [] \<and> when_clauses right = []")
  case True
  then show ?thesis by (simp add: contexts_overlap_def)
next
  case False
  note dl = distinct_when_map[of left] and dr = distinct_when_map[of right]
  show ?thesis
  proof (cases "map_of (when_map left) = map_of (when_map right)")
    case True
    have "\<not> disagree (when_map left) (when_map right)"
      "\<not> disagree (when_map right) (when_map left)"
      using True by (simp_all add: disagree_iff[OF dl] disagree_iff[OF dr])
    then show ?thesis
      using False True by (auto simp: contexts_overlap_def Let_def dict_eq_iff[OF dl dr])
  next
    case ne: False
    then have "\<not> dict_eq (when_map left) (when_map right)"
      by (simp add: dict_eq_iff[OF dl dr])
    then show ?thesis using False ne by (auto simp: contexts_overlap_def Let_def)
  qed
qed

lemma contexts_overlap_sym: "contexts_overlap left right = contexts_overlap right left"
  unfolding contexts_overlap_iff by auto

lemma conflicts_loop_members:
  assumes "\<forall>i \<in> set ids. map_of (bindings r) i \<noteq> None"
  shows "\<exists>found. conflicts_loop r b [] ids = Inr found
           \<and> set found = {e. \<exists>i \<in> set ids. map_of (bindings r) i = Some e \<and> contexts_overlap b e}"
  using assms
proof (induction ids)
  case Nil
  show ?case by simp
next
  case (Cons i ids)
  then obtain found where f: "conflicts_loop r b [] ids = Inr found"
      "set found = {e. \<exists>i \<in> set ids. map_of (bindings r) i = Some e \<and> contexts_overlap b e}"
    by auto
  obtain e where e: "map_of (bindings r) i = Some e" using Cons.prems by auto
  show ?case using f e by (auto simp: lookup_binding_def)
qed

lemma gg_bucket:
  "bucket (mode_index (gg_registry w)) (mode (gg_binding i v)) (key_signature (gg_binding i v))
     = [''first'']"
  by (simp add: gg_registry_def gg_binding_def gg_sequence_def key_signature_def tokens_def
      token_def bucket_def)

section \<open>Timers and generations\<close>

lemma snd_case_result:
  "snd (case p of (Inl err, m1) \<Rightarrow> (Inl err, m1) | (Inr r, m1) \<Rightarrow> (g r, m1)) = snd p"
  by (auto split: prod.splits sum.splits)

lemma superseded_world [simp]: "superseded gen nm (m\<lparr>world := w\<rparr>) = superseded gen nm m"
  by (simp add: superseded_def)

lemma superseded_active [simp]: "superseded gen nm (m\<lparr>active := a\<rparr>) = superseded gen nm m"
  by (simp add: superseded_def)

lemma superseded_modes [simp]: "superseded gen nm (m\<lparr>modes := ms\<rparr>) = superseded gen nm m"
  by (simp add: superseded_def)

lemma superseded_clock [simp]:
  "superseded gen nm (m\<lparr>clock_reads := n\<rparr>) = superseded gen nm m"
  by (simp add: superseded_def)

lemma superseded_cancel:
  "superseded gen nm m \<Longrightarrow> superseded gen nm (cancel_timeout other m)"
  by (cases "other = nm") (simp_all add: superseded_def cancel_timeout_def delete_conv')

text \<open>What \<open>arm_timeout\<close> returns: the timer stored when the division succeeds, the
  counter moved and nothing else when it raises.\<close>

lemma arm_timeout_cases:
  "(\<exists>seconds. ms_to_seconds ops ms = Inr seconds
      \<and> arm_timeout ops nm ms m =
          (Inr (),
           m\<lparr>timer_counter := timer_counter m + 1, clock_reads := clock_reads m + 1,
              pending_timeouts :=
                AList.update nm
                  \<lparr>deadline = float_add ops (monotonic m (clock_reads m)) seconds, timer_ms = ms,
                     generation = timer_counter m + 1\<rparr>
                  (pending_timeouts m)\<rparr>))
   \<or> (\<exists>err. ms_to_seconds ops ms = Inl err
      \<and> arm_timeout ops nm ms m =
          (Inl err, m\<lparr>timer_counter := timer_counter m + 1, clock_reads := clock_reads m + 1\<rparr>))"
  by (cases "ms_to_seconds ops ms") (simp_all add: arm_timeout_def time_monotonic_def Let_def)

lemma superseded_arm:
  "superseded gen nm m \<Longrightarrow> superseded gen nm (snd (arm_timeout ops other ms m))"
  using arm_timeout_cases [of ops ms other m]
  by (cases "other = nm") (auto simp: superseded_def update_conv')

lemma cancel_supersedes: "gen \<le> timer_counter m \<Longrightarrow> superseded gen nm (cancel_timeout nm m)"
  by (simp add: superseded_def cancel_timeout_def delete_conv')

lemma arm_supersedes:
  "gen \<le> timer_counter m \<Longrightarrow> arm_timeout ops nm ms m = (Inr u, m') \<Longrightarrow> superseded gen nm m'"
  using arm_timeout_cases [of ops ms nm m]
  by (auto simp: superseded_def update_conv')

lemma superseded_switch:
  "superseded gen nm m \<Longrightarrow> superseded gen nm (snd (switch_mode target m))"
  by (auto simp: switch_mode_def Let_def superseded_cancel split: option.splits)

lemma switch_supersedes:
  assumes "gen \<le> timer_counter m" "switch_cancels nm target m"
  shows "superseded gen nm (snd (switch_mode target m))"
proof -
  obtain tm where tm: "map_of (modes m) target = Some tm"
    using assms(2) by (auto simp: switch_cancels_def)
  show ?thesis
  proof (cases "active_mode m")
    case None
    then have "nm = target" using assms(2) by (simp add: switch_cancels_def)
    then show ?thesis
      using None tm assms(1)
      by (simp add: switch_mode_def Let_def superseded_def cancel_timeout_def delete_conv')
  next
    case (Some previous)
    then have p: "mode_name previous \<noteq> target" "nm = mode_name previous \<or> nm = target"
      using assms(2) by (simp_all add: switch_cancels_def)
    show ?thesis
      using Some tm assms(1) p
      by (auto simp: switch_mode_def Let_def superseded_def cancel_timeout_def delete_conv')
  qed
qed

lemma superseded_register:
  "superseded gen nm m \<Longrightarrow> superseded gen nm (snd (register_mode md m))"
  by (simp add: register_mode_def Let_def)

lemma superseded_after_mode_result:
  assumes s: "superseded gen nm m"
  shows "superseded gen nm (snd (after_mode_result ops md result m))"
proof -
  define p where "p = (case timeout_ms result of
              None \<Rightarrow> (Inr (), cancel_timeout (mode_name md) m)
            | Some ms \<Rightarrow> if ms \<noteq> 0 then arm_timeout ops (mode_name md) ms m
                        else (Inr (), cancel_timeout (mode_name md) m))"
  have s1: "superseded gen nm (snd p)"
    unfolding p_def using s by (simp add: superseded_cancel superseded_arm split: option.splits)
  have "snd (after_mode_result ops md result m) = snd p
        \<or> (\<exists>target. snd (after_mode_result ops md result m) = snd (switch_mode target (snd p)))"
    unfolding after_mode_result_def p_def [symmetric]
    by (cases p) (auto simp: snd_case_result split: option.splits sum.splits)
  then show ?thesis using s1 superseded_switch [OF s1] by auto
qed

lemma superseded_handle_key:
  "superseded gen nm m \<Longrightarrow> superseded gen nm (snd (handle_key ops k m))"
  by (auto simp: handle_key_def superseded_after_mode_result split: option.splits prod.splits)

lemma superseded_trigger:
  "superseded gen nm m \<Longrightarrow> superseded gen nm (snd (trigger_timeout ops other g m))"
  by (auto simp: trigger_timeout_def Let_def superseded_after_mode_result superseded_cancel
      split: option.splits prod.splits)

lemma superseded_trigger_all:
  "superseded gen nm m \<Longrightarrow> superseded gen nm (snd (trigger_all ops timers m))"
proof (induction timers arbitrary: m)
  case Nil
  then show ?case by simp
next
  case (Cons a timers)
  obtain other timer where a: "a = (other, timer)" by (cases a)
  obtain r m1 where t: "trigger_timeout ops other (generation timer) m = (r, m1)"
    by (cases "trigger_timeout ops other (generation timer) m")
  have s1: "superseded gen nm m1"
    using superseded_trigger [OF Cons.prems, of ops other "generation timer"] t by simp
  show ?case
    using Cons.IH [OF s1] s1 t unfolding a
    by (auto split: sum.splits prod.splits)
qed

lemma superseded_force:
  "superseded gen nm m \<Longrightarrow> superseded gen nm (snd (force_timeout ops target m))"
  unfolding force_timeout_def
  by (simp add: snd_case_result superseded_trigger superseded_trigger_all split: option.splits)

lemma superseded_process:
  "superseded gen nm m \<Longrightarrow> superseded gen nm (snd (process_timeouts ops m))"
  by (simp add: process_timeouts_def time_monotonic_def superseded_trigger_all)

lemma superseded_after_call:
  "superseded gen nm m \<Longrightarrow> superseded gen nm (after_call ops m c)"
  by (cases c)
    (simp_all add: superseded_register superseded_switch superseded_handle_key superseded_arm
      superseded_cancel superseded_trigger superseded_process superseded_force)

lemma superseded_after_calls:
  "superseded gen nm m \<Longrightarrow> superseded gen nm (after_calls ops m calls)"
  unfolding after_calls_def
  by (induction calls arbitrary: m) (simp_all add: superseded_after_call)

lemma superseded_inert:
  "superseded gen nm m \<Longrightarrow> trigger_timeout ops nm gen m = (Inr timeout_result, m)"
  by (auto simp: superseded_def trigger_timeout_def split: option.splits)

text \<open>The counter never goes down.\<close>

lemma reached_world [simp]: "reached gen (m\<lparr>world := w\<rparr>) = reached gen m"
  by (simp add: reached_def)

lemma reached_active [simp]: "reached gen (m\<lparr>active := a\<rparr>) = reached gen m"
  by (simp add: reached_def)

lemma reached_modes [simp]: "reached gen (m\<lparr>modes := ms\<rparr>) = reached gen m"
  by (simp add: reached_def)

lemma reached_clock [simp]: "reached gen (m\<lparr>clock_reads := n\<rparr>) = reached gen m"
  by (simp add: reached_def)

lemma reached_cancel [simp]: "reached gen (cancel_timeout other m) = reached gen m"
  by (simp add: reached_def cancel_timeout_def)

lemma reached_arm: "reached gen m \<Longrightarrow> reached gen (snd (arm_timeout ops other ms m))"
  using arm_timeout_cases [of ops ms other m] by (auto simp: reached_def)

lemma reached_switch: "reached gen m \<Longrightarrow> reached gen (snd (switch_mode target m))"
  by (auto simp: switch_mode_def Let_def split: option.splits)

lemma reached_register: "reached gen m \<Longrightarrow> reached gen (snd (register_mode md m))"
  by (simp add: register_mode_def Let_def)

lemma reached_after_mode_result:
  assumes s: "reached gen m"
  shows "reached gen (snd (after_mode_result ops md result m))"
proof -
  define p where "p = (case timeout_ms result of
              None \<Rightarrow> (Inr (), cancel_timeout (mode_name md) m)
            | Some ms \<Rightarrow> if ms \<noteq> 0 then arm_timeout ops (mode_name md) ms m
                        else (Inr (), cancel_timeout (mode_name md) m))"
  have s1: "reached gen (snd p)"
    unfolding p_def using s by (simp add: reached_arm split: option.splits)
  have "snd (after_mode_result ops md result m) = snd p
        \<or> (\<exists>target. snd (after_mode_result ops md result m) = snd (switch_mode target (snd p)))"
    unfolding after_mode_result_def p_def [symmetric]
    by (cases p) (auto simp: snd_case_result split: option.splits sum.splits)
  then show ?thesis using s1 reached_switch [OF s1] by auto
qed

lemma reached_handle_key: "reached gen m \<Longrightarrow> reached gen (snd (handle_key ops k m))"
  by (auto simp: handle_key_def reached_after_mode_result split: option.splits prod.splits)

lemma reached_trigger: "reached gen m \<Longrightarrow> reached gen (snd (trigger_timeout ops other g m))"
  by (auto simp: trigger_timeout_def Let_def reached_after_mode_result
      split: option.splits prod.splits)

lemma reached_trigger_all: "reached gen m \<Longrightarrow> reached gen (snd (trigger_all ops timers m))"
proof (induction timers arbitrary: m)
  case Nil
  then show ?case by simp
next
  case (Cons a timers)
  obtain other timer where a: "a = (other, timer)" by (cases a)
  obtain r m1 where t: "trigger_timeout ops other (generation timer) m = (r, m1)"
    by (cases "trigger_timeout ops other (generation timer) m")
  have s1: "reached gen m1"
    using reached_trigger [OF Cons.prems, of ops other "generation timer"] t by simp
  show ?case
    using Cons.IH [OF s1] s1 t unfolding a
    by (auto split: sum.splits prod.splits)
qed

lemma reached_force: "reached gen m \<Longrightarrow> reached gen (snd (force_timeout ops target m))"
  unfolding force_timeout_def
  by (simp add: snd_case_result reached_trigger reached_trigger_all split: option.splits)

lemma reached_process: "reached gen m \<Longrightarrow> reached gen (snd (process_timeouts ops m))"
  by (simp add: process_timeouts_def time_monotonic_def reached_trigger_all)

lemma reached_after_call: "reached gen m \<Longrightarrow> reached gen (after_call ops m c)"
  by (cases c)
    (simp_all add: reached_register reached_switch reached_handle_key reached_arm
      reached_trigger reached_process reached_force)

lemma reached_after_calls: "reached gen m \<Longrightarrow> reached gen (after_calls ops m calls)"
  unfolding after_calls_def
  by (induction calls arbitrary: m) (simp_all add: reached_after_call)

text \<open>After a second arm that returned, \<open>force_timeout\<close> for the mode fires the stored
  generation: it removes the timer, calls the mode's \<open>handle_timeout\<close> once, and passes the
  result on.\<close>

lemma force_after_second_arm:
  assumes "arm_timeout ops nm ms m1 = (Inr u, m2)"
    and "map_of (modes m1) nm = Some md"
  shows "force_timeout ops (Some nm) m2 =
           (case mode_handle_timeout md (world m1) of
              (result, w) \<Rightarrow>
                (case after_mode_result ops md result ((cancel_timeout nm m2)\<lparr>world := w\<rparr>) of
                   (Inl err, m3) \<Rightarrow> (Inl err, m3)
                 | (Inr r, m3) \<Rightarrow> (Inr [(nm, r)], m3)))"
  using arm_timeout_cases [of ops ms nm m1] assms
  by (auto simp: force_timeout_def trigger_timeout_def cancel_timeout_def
      Let_def update_conv' split: prod.splits)

lemma force_all_single:
  assumes "length (pending_timeouts m) = 1" and "map_of (pending_timeouts m) nm \<noteq> None"
  shows "force_timeout ops None m = force_timeout ops (Some nm) m"
proof -
  obtain k timer where p: "pending_timeouts m = [(k, timer)]"
    using assms(1) by (cases "pending_timeouts m") auto
  then have k: "k = nm" using assms(2) by (auto split: if_splits)
  show ?thesis
    unfolding force_timeout_def using p k
    by (auto split: prod.splits sum.splits)
qed

text \<open>
  Claim C7, as amended. Let \<open>arm_timeout\<close> for a mode return (generation \<open>gen\<close>, the counter
  plus one), let the host make any calls, then let the timer be superseded: by an
  \<open>arm_timeout\<close> for the mode that returns, by \<open>cancel_timeout\<close>, or by a \<open>switch_mode\<close>
  that cancels it. After any further calls, a fire request for the mode carrying \<open>gen\<close> is
  inert: \<open>_trigger_timeout\<close> returns the plain timeout result and the manager, with the
  state of every mode and of the context, is unchanged, so \<open>handle_timeout\<close> was not
  invoked. After two consecutive arms that return, the request with the first generation
  is inert, and \<open>force_timeout\<close> for the mode (or for all modes, when this timer is the
  only one pending) removes the timer and invokes the mode's \<open>handle_timeout\<close> exactly
  once, for the second generation.
\<close>

theorem superseded_timer_is_inert:
  assumes first: "arm_timeout ops nm ms_a base = (Inr (), armed)"
    and gen: "gen = timer_counter armed"
    and between: "mid = after_calls ops armed calls_a"
    and supersede: "arm_timeout ops nm ms_b mid = (Inr (), cancelled)
        \<or> cancelled = cancel_timeout nm mid
        \<or> (switch_cancels nm target mid \<and> cancelled = snd (switch_mode target mid))"
    and later: "final = after_calls ops cancelled calls_b"
    and twice: "arm_timeout ops nm ms_c armed = (Inr (), rearmed)"
  shows "gen = timer_counter base + 1
       \<and> (\<exists>seconds. ms_to_seconds ops ms_a = Inr seconds
            \<and> map_of (pending_timeouts armed) nm
                = Some \<lparr>deadline = float_add ops (monotonic base (clock_reads base)) seconds,
                        timer_ms = ms_a, generation = gen\<rparr>)
       \<and> trigger_timeout ops nm gen final = (Inr timeout_result, final)
       \<and> trigger_timeout ops nm gen rearmed = (Inr timeout_result, rearmed)
       \<and> (map_of (modes base) nm = Some md \<longrightarrow>
            force_timeout ops (Some nm) rearmed =
              (case mode_handle_timeout md (world base) of
                 (result, w) \<Rightarrow>
                   (case after_mode_result ops md result
                           ((cancel_timeout nm rearmed)\<lparr>world := w\<rparr>) of
                      (Inl err, m) \<Rightarrow> (Inl err, m)
                    | (Inr r, m) \<Rightarrow> (Inr [(nm, r)], m))))
       \<and> (length (pending_timeouts rearmed) = 1 \<longrightarrow>
            force_timeout ops None rearmed = force_timeout ops (Some nm) rearmed)"
proof -
  obtain seconds where a: "ms_to_seconds ops ms_a = Inr seconds"
      "armed = base\<lparr>timer_counter := timer_counter base + 1, clock_reads := clock_reads base + 1,
              pending_timeouts :=
                AList.update nm
                  \<lparr>deadline = float_add ops (monotonic base (clock_reads base)) seconds,
                     timer_ms = ms_a, generation = timer_counter base + 1\<rparr>
                  (pending_timeouts base)\<rparr>"
    using arm_timeout_cases [of ops ms_a nm base] first by auto
  have g: "gen = timer_counter base + 1" unfolding gen a(2) by simp
  have stored: "\<exists>seconds. ms_to_seconds ops ms_a = Inr seconds
            \<and> map_of (pending_timeouts armed) nm
                = Some \<lparr>deadline = float_add ops (monotonic base (clock_reads base)) seconds,
                        timer_ms = ms_a, generation = gen\<rparr>"
    using a(1) unfolding g a(2) by (simp add: update_conv')
  have r1: "reached gen armed" unfolding gen by (simp add: reached_def)
  then have "reached gen mid" unfolding between by (rule reached_after_calls)
  then have le: "gen \<le> timer_counter mid" by (simp add: reached_def)
  have "superseded gen nm cancelled"
    using supersede arm_supersedes [OF le] cancel_supersedes [OF le] switch_supersedes [OF le]
    by auto
  then have "superseded gen nm final" unfolding later by (rule superseded_after_calls)
  then have inert: "trigger_timeout ops nm gen final = (Inr timeout_result, final)"
    by (rule superseded_inert)
  have "gen \<le> timer_counter armed" using r1 by (simp add: reached_def)
  then have "superseded gen nm rearmed" using twice by (rule arm_supersedes)
  then have inert2: "trigger_timeout ops nm gen rearmed = (Inr timeout_result, rearmed)"
    by (rule superseded_inert)
  have same: "modes armed = modes base" "world armed = world base" unfolding a(2) by simp_all
  have force: "map_of (modes base) nm = Some md \<longrightarrow>
            force_timeout ops (Some nm) rearmed =
              (case mode_handle_timeout md (world base) of
                 (result, w) \<Rightarrow>
                   (case after_mode_result ops md result
                           ((cancel_timeout nm rearmed)\<lparr>world := w\<rparr>) of
                      (Inl err, m) \<Rightarrow> (Inl err, m)
                    | (Inr r, m) \<Rightarrow> (Inr [(nm, r)], m)))"
    using force_after_second_arm [OF twice, of md] unfolding same by blast
  have "map_of (pending_timeouts rearmed) nm \<noteq> None"
    using arm_timeout_cases [of ops ms_c nm armed] twice by (auto simp: update_conv')
  then have all: "length (pending_timeouts rearmed) = 1 \<longrightarrow>
            force_timeout ops None rearmed = force_timeout ops (Some nm) rearmed"
    using force_all_single [of rearmed nm ops] by blast
  show ?thesis by (intro conjI g stored inert inert2 force all)
qed

lemma normal_manager_eq:
  "normal_manager = \<lparr>modes = [(''normal'', logging_mode)], active = Some ''normal'',
     pending_timeouts = [], timer_counter = 0, world = [], monotonic = (\<lambda>n. 0),
     clock_reads = 0\<rparr>"
  by (simp add: normal_manager_def register_mode_def new_manager_def logging_mode_def Let_def)

lemma example_seconds:
  "ms_to_seconds example_ops 1000 = Inr 1"
  "ms_to_seconds example_ops 500 = Inr (1 / 2)"
  "ms_to_seconds example_ops huge_timeout = Inl OverflowError"
  by (simp_all add: example_ops_def huge_timeout_def)

lemma example_add: "float_add example_ops a b = a + b"
  by (simp add: example_ops_def)

lemma arm_once:
  "arm_timeout example_ops ''normal'' 1000 normal_manager =
     (Inr (), \<lparr>modes = [(''normal'', logging_mode)], active = Some ''normal'',
        pending_timeouts = [(''normal'', \<lparr>deadline = 1, timer_ms = 1000, generation = 1\<rparr>)],
        timer_counter = 1, world = [], monotonic = (\<lambda>n. 0), clock_reads = 1\<rparr>)"
  by (simp add: arm_timeout_def time_monotonic_def Let_def normal_manager_eq example_seconds
      example_add)

lemma armed_once_eq:
  "armed_once = \<lparr>modes = [(''normal'', logging_mode)], active = Some ''normal'',
        pending_timeouts = [(''normal'', \<lparr>deadline = 1, timer_ms = 1000, generation = 1\<rparr>)],
        timer_counter = 1, world = [], monotonic = (\<lambda>n. 0), clock_reads = 1\<rparr>"
  by (simp add: armed_once_def arm_once)

lemma arm_twice:
  "arm_timeout example_ops ''normal'' 500 armed_once =
     (Inr (), \<lparr>modes = [(''normal'', logging_mode)], active = Some ''normal'',
        pending_timeouts = [(''normal'', \<lparr>deadline = 1 / 2, timer_ms = 500, generation = 2\<rparr>)],
        timer_counter = 2, world = [], monotonic = (\<lambda>n. 0), clock_reads = 2\<rparr>)"
  by (simp add: arm_timeout_def time_monotonic_def Let_def armed_once_eq example_seconds
      example_add)

lemma armed_twice_eq:
  "armed_twice = \<lparr>modes = [(''normal'', logging_mode)], active = Some ''normal'',
        pending_timeouts = [(''normal'', \<lparr>deadline = 1 / 2, timer_ms = 500, generation = 2\<rparr>)],
        timer_counter = 2, world = [], monotonic = (\<lambda>n. 0), clock_reads = 2\<rparr>"
  by (simp add: armed_twice_def arm_twice)

lemma arm_overflow:
  "arm_timeout example_ops ''normal'' huge_timeout armed_once =
     (Inl OverflowError, \<lparr>modes = [(''normal'', logging_mode)], active = Some ''normal'',
        pending_timeouts = [(''normal'', \<lparr>deadline = 1, timer_ms = 1000, generation = 1\<rparr>)],
        timer_counter = 2, world = [], monotonic = (\<lambda>n. 0), clock_reads = 2\<rparr>)"
  by (simp add: arm_timeout_def time_monotonic_def Let_def armed_once_eq example_seconds)

lemma arm_failed_eq:
  "arm_failed = \<lparr>modes = [(''normal'', logging_mode)], active = Some ''normal'',
        pending_timeouts = [(''normal'', \<lparr>deadline = 1, timer_ms = 1000, generation = 1\<rparr>)],
        timer_counter = 2, world = [], monotonic = (\<lambda>n. 0), clock_reads = 2\<rparr>"
  by (simp add: arm_failed_def arm_overflow)

lemma logging_timeout:
  "mode_handle_timeout logging_mode w = (timeout_result, w @ [''normal.handle_timeout''])"
  by (simp add: logging_mode_def)

lemma logging_name: "mode_name logging_mode = ''normal''"
  by (simp add: logging_mode_def)

lemma after_timeout_result:
  "after_mode_result ops md timeout_result m = (Inr timeout_result, cancel_timeout (mode_name md) m)"
  by (simp add: after_mode_result_def timeout_result_def mode_result_def)

theorem superseded_timer_is_inert_witness:
  "arm_timeout example_ops ''normal'' 1000 normal_manager = (Inr (), armed_once)
   \<and> timer_counter armed_once = 1
   \<and> arm_timeout example_ops ''normal'' 500 armed_once = (Inr (), armed_twice)
   \<and> map_of (modes normal_manager) ''normal'' = Some logging_mode
   \<and> length (pending_timeouts armed_twice) = 1
   \<and> trigger_timeout example_ops ''normal'' 1 armed_twice = (Inr timeout_result, armed_twice)
   \<and> fst (force_timeout example_ops (Some ''normal'') armed_twice)
       = Inr [(''normal'', timeout_result)]
   \<and> world (snd (force_timeout example_ops (Some ''normal'') armed_twice))
       = [''normal.handle_timeout'']
   \<and> pending_timeouts (snd (force_timeout example_ops (Some ''normal'') armed_twice)) = []
   \<and> force_timeout example_ops None armed_twice
       = force_timeout example_ops (Some ''normal'') armed_twice"
proof -
  have a1: "arm_timeout example_ops ''normal'' 1000 normal_manager = (Inr (), armed_once)"
    by (simp add: arm_once armed_once_eq)
  have a2: "arm_timeout example_ops ''normal'' 500 armed_once = (Inr (), armed_twice)"
    by (simp add: arm_twice armed_twice_eq)
  have c: "timer_counter armed_once = 1" by (simp add: armed_once_eq)
  have md: "map_of (modes normal_manager) ''normal'' = Some logging_mode"
    by (simp add: normal_manager_eq)
  have one: "length (pending_timeouts armed_twice) = 1" by (simp add: armed_twice_eq)
  have mid: "armed_once = after_calls example_ops armed_once []" by (simp add: after_calls_def)
  have later: "armed_twice = after_calls example_ops armed_twice []"
    by (simp add: after_calls_def)
  note t = superseded_timer_is_inert [where ops = example_ops and base = normal_manager
      and nm = "''normal''" and ms_a = 1000 and armed = armed_once and gen = 1
      and mid = armed_once and calls_a = "[]" and ms_b = 500 and cancelled = armed_twice
      and final = armed_twice and calls_b = "[]" and ms_c = 500 and rearmed = armed_twice
      and md = logging_mode,
      OF a1 c [symmetric] mid disjI1 [OF a2] later a2]
  note inert = t [THEN conjunct2, THEN conjunct2, THEN conjunct1]
  note force = t [THEN conjunct2, THEN conjunct2, THEN conjunct2, THEN conjunct2,
      THEN conjunct1, rule_format, OF md]
  note all = t [THEN conjunct2, THEN conjunct2, THEN conjunct2, THEN conjunct2,
      THEN conjunct2, rule_format, OF one]
  have w: "world normal_manager = []" by (simp add: normal_manager_eq)
  have f: "force_timeout example_ops (Some ''normal'') armed_twice =
      (Inr [(''normal'', timeout_result)],
       cancel_timeout ''normal''
         ((cancel_timeout ''normal'' armed_twice)\<lparr>world := [''normal.handle_timeout'']\<rparr>))"
    unfolding force w logging_timeout
    by (simp add: after_timeout_result logging_name)
  have p: "pending_timeouts (cancel_timeout ''normal''
         ((cancel_timeout ''normal'' armed_twice)\<lparr>world := [''normal.handle_timeout'']\<rparr>)) = []"
    by (simp add: cancel_timeout_def armed_twice_eq)
  have v: "world (cancel_timeout ''normal''
         ((cancel_timeout ''normal'' armed_twice)\<lparr>world := [''normal.handle_timeout'']\<rparr>))
         = [''normal.handle_timeout'']"
    by (simp add: cancel_timeout_def)
  show ?thesis
    unfolding all unfolding f using a1 a2 c md one inert p v by simp
qed

text \<open>
  The claim as stated covers every \<open>arm_timeout\<close> call. A call that raises supersedes
  nothing: \<open>arm_timeout("normal", 2 ** 1024)\<close> increments the counter, then
  \<open>timeout_ms / 1000.0\<close> raises \<open>OverflowError\<close> and the timer of generation 1 stays
  armed; the fire request carrying generation 1 then removes it and invokes the mode's
  \<open>handle_timeout\<close>.
\<close>

theorem failed_rearm_counterexample:
  "huge_timeout = 2 ^ 1024
   \<and> arm_timeout example_ops ''normal'' 1000 normal_manager = (Inr (), armed_once)
   \<and> timer_counter armed_once = 1
   \<and> arm_timeout example_ops ''normal'' huge_timeout armed_once = (Inl OverflowError, arm_failed)
   \<and> timer_counter arm_failed = 2
   \<and> map_of (pending_timeouts arm_failed) ''normal''
       = Some \<lparr>deadline = 1, timer_ms = 1000, generation = 1\<rparr>
   \<and> world arm_failed = []
   \<and> fst (trigger_timeout example_ops ''normal'' 1 arm_failed) = Inr timeout_result
   \<and> world (snd (trigger_timeout example_ops ''normal'' 1 arm_failed))
       = [''normal.handle_timeout'']
   \<and> pending_timeouts (snd (trigger_timeout example_ops ''normal'' 1 arm_failed)) = []"
proof -
  have a1: "arm_timeout example_ops ''normal'' 1000 normal_manager = (Inr (), armed_once)"
    by (simp add: arm_once armed_once_eq)
  have a2: "arm_timeout example_ops ''normal'' huge_timeout armed_once
              = (Inl OverflowError, arm_failed)"
    by (simp add: arm_overflow arm_failed_eq)
  have t: "trigger_timeout example_ops ''normal'' 1 arm_failed =
      (Inr timeout_result,
       cancel_timeout ''normal''
         ((cancel_timeout ''normal'' arm_failed)\<lparr>world := [''normal.handle_timeout'']\<rparr>))"
    by (simp add: trigger_timeout_def arm_failed_eq Let_def cancel_timeout_def logging_timeout
        after_timeout_result logging_name)
  have h: "huge_timeout = 2 ^ 1024" by (rule huge_timeout_def)
  have rest: "timer_counter armed_once = 1" "timer_counter arm_failed = 2"
    "map_of (pending_timeouts arm_failed) ''normal''
       = Some \<lparr>deadline = 1, timer_ms = 1000, generation = 1\<rparr>"
    "world arm_failed = []"
    "world (cancel_timeout ''normal''
         ((cancel_timeout ''normal'' arm_failed)\<lparr>world := [''normal.handle_timeout'']\<rparr>))
       = [''normal.handle_timeout'']"
    "pending_timeouts (cancel_timeout ''normal''
         ((cancel_timeout ''normal'' arm_failed)\<lparr>world := [''normal.handle_timeout'']\<rparr>)) = []"
    by (simp_all add: armed_once_eq arm_failed_eq cancel_timeout_def)
  show ?thesis
    unfolding t fst_conv snd_conv by (intro conjI h a1 a2 rest refl)
qed

section \<open>The index after \<open>_index_binding\<close> and \<open>_remove_binding\<close>\<close>

lemma set_set_add: "set (set_add x xs) = insert x (set xs)"
  by (auto simp: set_add_def)

lemma bucket_index_binding:
  "bucket (index_binding idx b) m sg =
     (if m = mode b \<and> sg = key_signature b then set_add (binding_id b) (bucket idx m sg)
      else bucket idx m sg)"
  by (simp add: bucket_def index_binding_def Let_def update_conv' split: option.splits)

lemma bucket_remove_binding:
  "bucket (remove_binding idx b) m sg =
     (if m = mode b \<and> sg = key_signature b then removeAll (binding_id b) (bucket idx m sg)
      else bucket idx m sg)"
proof (cases "map_of idx (mode b)")
  case None
  then show ?thesis by (simp add: bucket_def remove_binding_def)
next
  case (Some mb)
  note mb = this
  show ?thesis
  proof (cases "mb = []")
    case True
    then show ?thesis using mb by (simp add: bucket_def remove_binding_def)
  next
    case False
    note ne = this
    show ?thesis
    proof (cases "map_of mb (key_signature b)")
      case None
      then show ?thesis using mb ne by (simp add: bucket_def remove_binding_def)
    next
      case (Some sigs)
      note sigs = this
      show ?thesis
      proof (cases "sigs = []")
        case True
        then show ?thesis using mb ne sigs by (simp add: bucket_def remove_binding_def)
      next
        case False
        define s1 where "s1 = removeAll (binding_id b) sigs"
        define mb1 where "mb1 = (if s1 = [] then AList.delete (key_signature b) mb
                                 else AList.update (key_signature b) s1 mb)"
        have r: "remove_binding idx b =
                   (if mb1 = [] then AList.delete (mode b) idx else AList.update (mode b) mb1 idx)"
          using mb ne sigs False by (simp add: remove_binding_def Let_def mb1_def s1_def)
        have look: "(case map_of mb1 sg of None \<Rightarrow> [] | Some ids \<Rightarrow> ids) =
                      (if sg = key_signature b then s1
                       else (case map_of mb sg of None \<Rightarrow> [] | Some ids \<Rightarrow> ids))" for sg
          by (simp add: mb1_def delete_conv' update_conv')
        show ?thesis
        proof (cases "mb1 = []")
          case True
          have "(case map_of mb1 sg of None \<Rightarrow> [] | Some ids \<Rightarrow> ids) = []" for sg
            using True by simp
          then have e: "(if sg = key_signature b then s1
                       else (case map_of mb sg of None \<Rightarrow> [] | Some ids \<Rightarrow> ids)) = []" for sg
            using look by simp
          have "bucket (AList.delete (mode b) idx) m sg =
                  (if m = mode b then [] else bucket idx m sg)"
            by (simp add: bucket_def delete_conv')
          then show ?thesis using r True e [of sg] mb sigs
            by (auto simp: bucket_def s1_def split: if_splits)
        next
          case False
          have "bucket (AList.update (mode b) mb1 idx) m sg =
                  (if m = mode b then (case map_of mb1 sg of None \<Rightarrow> [] | Some ids \<Rightarrow> ids)
                   else bucket idx m sg)"
            by (simp add: bucket_def update_conv')
          then show ?thesis using r False look [of sg] mb sigs
            by (auto simp: bucket_def s1_def)
        qed
      qed
    qed
  qed
qed

lemma signatures_distinct_index_binding:
  assumes "signatures_distinct idx"
  shows "signatures_distinct (index_binding idx b)"
  unfolding signatures_distinct_def
proof (intro allI impI)
  fix m d
  assume a: "map_of (index_binding idx b) m = Some d"
  show "distinct (map fst d)"
  proof (cases "m = mode b")
    case True
    then show ?thesis using a assms
      by (auto simp: index_binding_def Let_def update_conv' signatures_distinct_def distinct_update
               split: option.splits)
  next
    case False
    then show ?thesis using a assms
      by (auto simp: index_binding_def Let_def update_conv' signatures_distinct_def)
  qed
qed

lemma signatures_distinct_remove_binding:
  assumes "signatures_distinct idx"
  shows "signatures_distinct (remove_binding idx b)"
  unfolding signatures_distinct_def
proof (intro allI impI)
  fix m d
  assume a: "map_of (remove_binding idx b) m = Some d"
  show "distinct (map fst d)"
  proof (cases "m = mode b")
    case True
    then show ?thesis using a assms
      by (auto simp: remove_binding_def Let_def update_conv' delete_conv' signatures_distinct_def
               distinct_update distinct_delete split: option.splits if_splits)
  next
    case False
    then show ?thesis using a assms
      by (auto simp: remove_binding_def Let_def update_conv' delete_conv' signatures_distinct_def
               split: option.splits if_splits)
  qed
qed

lemma tables_ok_empty: "tables_ok A Map.empty []"
  by (simp add: tables_ok_def signatures_distinct_def bucket_def)

lemma tables_ok_actions:
  assumes "tables_ok A B idx" and "\<And>k. A k \<noteq> None \<Longrightarrow> A' k \<noteq> None"
  shows "tables_ok A' B idx"
  using assms unfolding tables_ok_def by blast

lemma tables_ok_drop:
  assumes ok: "tables_ok A B idx"
    and c: "B (binding_id c) = Some c \<or> B (binding_id c) = None"
  shows "tables_ok A (B(binding_id c := None)) (remove_binding idx c)"
  unfolding tables_ok_def
proof (intro conjI allI impI)
  fix i b assume "(B(binding_id c := None)) i = Some b"
  then have "B i = Some b" by (simp split: if_splits)
  then show "binding_id b = i" "A (action_id b) \<noteq> None" using ok by (auto simp: tables_ok_def)
next
  show "signatures_distinct (remove_binding idx c)"
    using ok by (simp add: tables_ok_def signatures_distinct_remove_binding)
next
  fix m sg i
  have b3: "\<And>m sg i. i \<in> set (bucket idx m sg)
           \<longleftrightarrow> (\<exists>b. B i = Some b \<and> mode b = m \<and> key_signature b = sg)"
    using ok by (simp add: tables_ok_def)
  show "i \<in> set (bucket (remove_binding idx c) m sg)
     \<longleftrightarrow> (\<exists>b. (B(binding_id c := None)) i = Some b \<and> mode b = m \<and> key_signature b = sg)"
  proof (cases "i = binding_id c")
    case True
    then show ?thesis using c b3 [of i m sg] by (auto simp: bucket_remove_binding)
  next
    case False
    then show ?thesis using b3 [of i m sg] by (auto simp: bucket_remove_binding)
  qed
qed

lemma tables_ok_store:
  assumes ok: "tables_ok A B idx"
    and fresh: "B (binding_id b) = None"
    and act: "A (action_id b) \<noteq> None"
  shows "tables_ok A (B(binding_id b \<mapsto> b)) (index_binding idx b)"
  unfolding tables_ok_def
proof (intro conjI allI impI)
  fix i b' assume "(B(binding_id b \<mapsto> b)) i = Some b'"
  then have "b' = b \<and> i = binding_id b \<or> B i = Some b'" by (auto split: if_splits)
  then show "binding_id b' = i" "A (action_id b') \<noteq> None"
    using ok act by (auto simp: tables_ok_def)
next
  show "signatures_distinct (index_binding idx b)"
    using ok by (simp add: tables_ok_def signatures_distinct_index_binding)
next
  fix m sg i
  have b3: "\<And>m sg i. i \<in> set (bucket idx m sg)
           \<longleftrightarrow> (\<exists>b. B i = Some b \<and> mode b = m \<and> key_signature b = sg)"
    using ok by (simp add: tables_ok_def)
  show "i \<in> set (bucket (index_binding idx b) m sg)
     \<longleftrightarrow> (\<exists>b'. (B(binding_id b \<mapsto> b)) i = Some b' \<and> mode b' = m \<and> key_signature b' = sg)"
  proof (cases "i = binding_id b")
    case True
    then show ?thesis using fresh b3 [of i m sg]
      by (auto simp: bucket_index_binding set_set_add)
  next
    case False
    then show ?thesis using b3 [of i m sg] by (auto simp: bucket_index_binding set_set_add)
  qed
qed

text \<open>Removing a binding from the index and indexing another one under the same id.\<close>

lemma tables_ok_rebind:
  assumes ok: "tables_ok A B idx"
    and cur: "B i = Some c'" "mode c' = mode c" "key_signature c' = key_signature c"
      "binding_id c = i"
    and upd: "binding_id u = i" "A (action_id u) \<noteq> None"
  shows "tables_ok A (B(i \<mapsto> u)) (index_binding (remove_binding idx c) u)"
proof -
  have "B (binding_id c') = Some c'" using ok cur by (auto simp: tables_ok_def)
  have idc: "binding_id c' = i" using ok cur by (auto simp: tables_ok_def)
  have rm: "remove_binding idx c = remove_binding idx c'"
    unfolding remove_binding_def cur(2,3) idc cur(4) ..
  have "tables_ok A (B(binding_id c' := None)) (remove_binding idx c')"
    using tables_ok_drop [OF ok, of c'] \<open>B (binding_id c') = Some c'\<close> by simp
  then have "tables_ok A ((B(i := None))(binding_id u \<mapsto> u))
               (index_binding (remove_binding idx c) u)"
    using tables_ok_store [of A "B(i := None)" "remove_binding idx c" u] upd idc rm by simp
  then show ?thesis using upd by simp
qed

lemma registry_ok_tables:
  "registry_ok r \<Longrightarrow> tables_ok (map_of (actions r)) (map_of (bindings r)) (mode_index r)"
  by (simp add: registry_ok_def)

lemma registry_ok_new: "registry_ok new_registry"
  by (simp add: registry_ok_def new_registry_def tables_ok_empty)

lemma registered_id:
  "registry_ok r \<Longrightarrow> map_of (bindings r) i = Some b \<Longrightarrow> binding_id b = i"
  by (auto simp: registry_ok_def tables_ok_def)

lemma bucket_registered:
  "registry_ok r \<Longrightarrow> i \<in> set (bucket (mode_index r) m sg) \<Longrightarrow>
     \<exists>b. map_of (bindings r) i = Some b \<and> mode b = m \<and> key_signature b = sg"
  by (auto simp: registry_ok_def tables_ok_def)

lemma lookup_all_total:
  assumes "\<forall>i \<in> set ids. map_of (bindings r) i \<noteq> None"
  shows "lookup_all r ids = Inr (map (\<lambda>i. the (map_of (bindings r) i)) ids)"
  using assms by (induction ids) (auto simp: lookup_binding_def)

lemma lookup_all_members:
  "lookup_all r ids = Inr bs \<Longrightarrow> b \<in> set bs \<Longrightarrow> \<exists>i. map_of (bindings r) i = Some b"
proof (induction ids arbitrary: bs)
  case Nil
  then show ?case by simp
next
  case (Cons i ids)
  then show ?case
    by (auto simp: lookup_binding_def split: option.splits sum.splits)
qed

text \<open>The bindings of a mode, as \<open>iter_bindings(mode)\<close> yields them.\<close>

lemma iter_bindings_mode:
  assumes ok: "registry_ok r"
  shows "\<exists>bs. iter_bindings r (Some m) = Inr bs
           \<and> set bs = {b. \<exists>i. map_of (bindings r) i = Some b \<and> mode b = m}"
proof -
  define d where "d = (case map_of (mode_index r) m of None \<Rightarrow> [] | Some d \<Rightarrow> d)"
  define ids where "ids = concat (map snd d)"
  have dd: "distinct (map fst d)"
    using ok by (auto simp: d_def registry_ok_def tables_ok_def signatures_distinct_def
        split: option.splits)
  have bk: "bucket (mode_index r) m sg = (case map_of d sg of None \<Rightarrow> [] | Some s \<Rightarrow> s)" for sg
    by (simp add: bucket_def d_def split: option.splits)
  have mem: "i \<in> set ids \<longleftrightarrow> (\<exists>sg. i \<in> set (bucket (mode_index r) m sg))" for i
  proof
    assume "i \<in> set ids"
    then obtain sg s where "(sg, s) \<in> set d" "i \<in> set s" by (auto simp: ids_def)
    then have "map_of d sg = Some s" using dd by simp
    then have "bucket (mode_index r) m sg = s" using bk [of sg] by simp
    then show "\<exists>sg. i \<in> set (bucket (mode_index r) m sg)" using \<open>i \<in> set s\<close> by blast
  next
    assume "\<exists>sg. i \<in> set (bucket (mode_index r) m sg)"
    then obtain sg where i: "i \<in> set (bucket (mode_index r) m sg)" by blast
    then obtain s where "map_of d sg = Some s" "i \<in> set s"
      using bk [of sg] by (auto split: option.splits)
    then have "(sg, s) \<in> set d" by (auto dest: map_of_SomeD)
    then show "i \<in> set ids" using \<open>i \<in> set s\<close> by (force simp: ids_def)
  qed
  have reg: "i \<in> set ids \<longleftrightarrow> (\<exists>b. map_of (bindings r) i = Some b \<and> mode b = m)" for i
    using ok mem [of i] by (auto simp: registry_ok_def tables_ok_def)
  then have "\<forall>i \<in> set ids. map_of (bindings r) i \<noteq> None" by auto
  then have l: "lookup_all r ids = Inr (map (\<lambda>i. the (map_of (bindings r) i)) ids)"
    by (rule lookup_all_total)
  have "set (map (\<lambda>i. the (map_of (bindings r) i)) ids)
          = {b. \<exists>i. map_of (bindings r) i = Some b \<and> mode b = m}" (is "?L = ?R")
  proof
    show "?L \<subseteq> ?R"
    proof
      fix b assume "b \<in> ?L"
      then obtain i where i: "i \<in> set ids" "b = the (map_of (bindings r) i)" by auto
      then obtain c where "map_of (bindings r) i = Some c" "mode c = m" using reg by blast
      then show "b \<in> ?R" using i(2) by auto
    qed
    show "?R \<subseteq> ?L"
    proof
      fix b assume "b \<in> ?R"
      then obtain i where i: "map_of (bindings r) i = Some b" "mode b = m" by blast
      then have "i \<in> set ids" using reg by blast
      then show "b \<in> ?L" using i(1) by force
    qed
  qed
  then show ?thesis using l by (simp add: iter_bindings_def ids_def d_def)
qed

lemma follows_refl: "registry_ok r \<Longrightarrow> follows r r"
  by (simp add: follows_def)

lemma follows_register_action:
  assumes "registry_ok r"
  shows "follows r (snd (register_action r a replace))"
proof -
  have "tables_ok (map_of (AList.update (ref_id a) a (actions r))) (map_of (bindings r))
          (mode_index r)"
    using registry_ok_tables [OF assms]
    by (rule tables_ok_actions) (simp add: update_conv')
  then show ?thesis using assms
    by (simp add: follows_def register_action_def registry_ok_def)
qed

lemma registry_ok_drop:
  assumes ok: "registry_ok r"
    and c: "map_of (bindings r) (binding_id c) = Some c \<or> map_of (bindings r) (binding_id c) = None"
  shows "registry_ok (drop_binding r c)"
  using tables_ok_drop [OF registry_ok_tables [OF ok] c] ok
  by (simp add: registry_ok_def drop_binding_def delete_conv' distinct_delete)

lemma drop_binding_fields:
  "actions (drop_binding r c) = actions r"
  "revision (drop_binding r c) = revision r"
  "map_of (bindings (drop_binding r c)) = (map_of (bindings r))(binding_id c := None)"
  by (simp_all add: drop_binding_def delete_conv')

lemma registry_ok_drop_all:
  assumes "registry_ok r"
    and "\<forall>c \<in> set cs. map_of (bindings r) (binding_id c) = Some c
                     \<or> map_of (bindings r) (binding_id c) = None"
  shows "registry_ok (foldl drop_binding r cs)
         \<and> actions (foldl drop_binding r cs) = actions r
         \<and> revision (foldl drop_binding r cs) = revision r"
  using assms
proof (induction cs arbitrary: r)
  case Nil
  then show ?case by simp
next
  case (Cons c cs)
  have ok1: "registry_ok (drop_binding r c)" using Cons.prems by (auto intro: registry_ok_drop)
  have "\<forall>d \<in> set cs. map_of (bindings (drop_binding r c)) (binding_id d) = Some d
                     \<or> map_of (bindings (drop_binding r c)) (binding_id d) = None"
    using Cons.prems(2) by (auto simp: drop_binding_fields)
  from Cons.IH [OF ok1 this] show ?case by (simp add: drop_binding_fields)
qed

lemma registry_ok_store:
  assumes ok: "registry_ok r"
    and fresh: "map_of (bindings r) (binding_id b) = None"
    and act: "map_of (actions r) (action_id b) \<noteq> None"
  shows "registry_ok (store_binding r b)"
    and "revision (store_binding r b) = revision r + 1"
  using tables_ok_store [OF registry_ok_tables [OF ok] fresh act] ok
  by (simp_all add: registry_ok_def store_binding_def touch_bindings_def update_conv'
        distinct_update)

lemma detect_conflicts_registered:
  assumes ok: "registry_ok r"
  shows "\<exists>found. detect_conflicts r b [] = Inr found
           \<and> (\<forall>e \<in> set found. map_of (bindings r) (binding_id e) = Some e)"
proof -
  have "\<forall>i \<in> set (bucket (mode_index r) (mode b) (key_signature b)).
          map_of (bindings r) i \<noteq> None"
    using bucket_registered [OF ok] by fastforce
  from conflicts_loop_members [OF this, of b]
  obtain found where f: "detect_conflicts r b [] = Inr found"
    "set found = {e. \<exists>i \<in> set (bucket (mode_index r) (mode b) (key_signature b)).
                     map_of (bindings r) i = Some e \<and> contexts_overlap b e}"
    unfolding detect_conflicts_def by blast
  have "\<forall>e \<in> set found. map_of (bindings r) (binding_id e) = Some e"
    using f(2) registered_id [OF ok] by auto
  then show ?thesis using f(1) by blast
qed

lemma follows_register_binding:
  assumes ok: "registry_ok r"
  shows "follows r (snd (register_binding r b replace))"
proof (cases "map_of (actions r) (action_id b) = None")
  case True
  then show ?thesis using ok by (simp add: register_binding_def follows_refl)
next
  case False
  note act = this
  obtain found where f: "detect_conflicts r b [] = Inr found"
    "\<forall>e \<in> set found. map_of (bindings r) (binding_id e) = Some e"
    using detect_conflicts_registered [OF ok] by blast
  show ?thesis
  proof (cases replace)
    case True
    define r1 where "r1 = foldl drop_binding r found"
    define r2 where "r2 = (case map_of (bindings r1) (binding_id b) of
                            None \<Rightarrow> r1 | Some existing \<Rightarrow> drop_binding r1 existing)"
    have r1: "registry_ok r1" "actions r1 = actions r" "revision r1 = revision r"
      using registry_ok_drop_all [OF ok, of found] f(2) by (simp_all add: r1_def)
    have r2: "registry_ok r2 \<and> actions r2 = actions r \<and> revision r2 = revision r
              \<and> map_of (bindings r2) (binding_id b) = None"
    proof (cases "map_of (bindings r1) (binding_id b)")
      case None
      then show ?thesis using r1 by (simp add: r2_def)
    next
      case (Some existing)
      have i: "binding_id existing = binding_id b" using registered_id [OF r1(1) Some] .
      have "registry_ok (drop_binding r1 existing)"
        using registry_ok_drop [OF r1(1), of existing] Some i by simp
      then show ?thesis using Some r1 i by (simp add: r2_def drop_binding_fields)
    qed
    have "register_binding r b replace = (Inr b, store_binding r2 b)"
      unfolding r2_def r1_def using act f(1) True by (simp add: register_binding_def Let_def)
    then show ?thesis
      using registry_ok_store [of r2 b] r2 act by (simp add: follows_def)
  next
    case False
    then show ?thesis
      using act f(1) ok registry_ok_store [of r b]
      by (auto simp: register_binding_def follows_def)
  qed
qed

lemma follows_unregister_binding:
  assumes ok: "registry_ok r"
  shows "follows r (snd (unregister_binding r i))"
proof (cases "map_of (bindings r) i")
  case None
  then show ?thesis using ok by (simp add: unregister_binding_def follows_refl)
next
  case (Some b)
  have i: "binding_id b = i" using registered_id [OF ok Some] .
  have "registry_ok (drop_binding r b)"
    using registry_ok_drop [OF ok, of b] Some i by simp
  then have "registry_ok (touch_bindings (r\<lparr>bindings := AList.delete i (bindings r),
                mode_index := remove_binding (mode_index r) b\<rparr>))"
    using i by (simp add: registry_ok_def drop_binding_def touch_bindings_def)
  then show ?thesis using Some
    by (simp add: unregister_binding_def follows_def touch_bindings_def)
qed

lemma replace_fields_keeps_id:
  assumes "replace_fields c ch = Inr u" and "new_id ch = None \<or> new_id ch = Some (binding_id c)"
  shows "binding_id u = binding_id c"
  using assms by (auto simp: replace_fields_def Let_def split: if_splits)

lemma set_bucket_remove_binding:
  "set (bucket (remove_binding idx c) m sg) \<subseteq> set (bucket idx m sg)"
  by (auto simp: bucket_remove_binding)

lemma follows_update_binding:
  assumes ok: "registry_ok r" and keep: "new_id ch = None \<or> new_id ch = Some i"
  shows "follows r (snd (update_binding r i ch))"
proof (cases "map_of (bindings r) i")
  case None
  then show ?thesis using ok by (simp add: update_binding_def follows_refl)
next
  case (Some current)
  note cur = this
  have idc: "binding_id current = i" using registered_id [OF ok cur] .
  show ?thesis
  proof (cases "replace_fields current ch")
    case (Inl err)
    then show ?thesis using ok cur by (simp add: update_binding_def follows_refl)
  next
    case (Inr updated)
    note upd = this
    have idu: "binding_id updated = i"
      using replace_fields_keeps_id [OF upd] keep idc by simp
    show ?thesis
    proof (cases "map_of (actions r) (action_id updated) = None")
      case True
      then show ?thesis using ok cur upd by (simp add: update_binding_def follows_refl)
    next
      case False
      note act = this
      then obtain a where acta: "map_of (actions r) (action_id updated) = Some a" by blast
      define r1 where "r1 = r\<lparr>mode_index := remove_binding (mode_index r) current\<rparr>"
      have "\<forall>j \<in> set (bucket (mode_index r1) (mode updated) (key_signature updated)).
              map_of (bindings r1) j \<noteq> None"
      proof
        fix j assume "j \<in> set (bucket (mode_index r1) (mode updated) (key_signature updated))"
        then have "j \<in> set (bucket (mode_index r) (mode updated) (key_signature updated))"
          using set_bucket_remove_binding [of "mode_index r" current] by (auto simp: r1_def)
        then obtain b where "map_of (bindings r) j = Some b"
          using bucket_registered [OF ok] by blast
        then show "map_of (bindings r1) j \<noteq> None" by (simp add: r1_def)
      qed
      from conflicts_loop_members [OF this, of updated]
      obtain found where f: "detect_conflicts r1 updated [] = Inr found"
        unfolding detect_conflicts_def by blast
      have t: "tables_ok (map_of (actions r)) (map_of (bindings r)) (mode_index r)"
        using ok by (rule registry_ok_tables)
      have d: "distinct (map fst (bindings r))" using ok by (simp add: registry_ok_def)
      show ?thesis
      proof (cases "found = []")
        case True
        have "tables_ok (map_of (actions r)) ((map_of (bindings r))(i \<mapsto> updated))
                (index_binding (remove_binding (mode_index r) current) updated)"
          using tables_ok_rebind [OF t cur refl refl idc idu act] .
        then have "registry_ok (touch_bindings
                     (r1\<lparr>bindings := AList.update i updated (bindings r1),
                         mode_index := index_binding (mode_index r1) updated\<rparr>))"
          using d by (simp add: registry_ok_def r1_def touch_bindings_def update_conv'
              distinct_update)
        moreover have "update_binding r i ch =
            (Inr updated, touch_bindings
                     (r1\<lparr>bindings := AList.update i updated (bindings r1),
                         mode_index := index_binding (mode_index r1) updated\<rparr>))"
          using cur upd acta f True
          by (simp add: update_binding_def Let_def r1_def)
        ultimately show ?thesis by (simp add: follows_def touch_bindings_def r1_def)
      next
        case False
        have "map_of (actions r) (action_id current) \<noteq> None"
          using t cur unfolding tables_ok_def by blast
        then have "tables_ok (map_of (actions r)) ((map_of (bindings r))(i \<mapsto> current))
                (index_binding (remove_binding (mode_index r) current) current)"
          using tables_ok_rebind [OF t cur refl refl idc idc] by blast
        moreover have "(map_of (bindings r))(i \<mapsto> current) = map_of (bindings r)"
          using cur by (simp add: map_upd_triv)
        ultimately have "registry_ok (r1\<lparr>mode_index := index_binding (mode_index r1) current\<rparr>)"
          using d by (simp add: registry_ok_def r1_def)
        moreover have "snd (update_binding r i ch) =
            r1\<lparr>mode_index := index_binding (mode_index r1) current\<rparr>"
          using cur upd acta f False
          by (simp add: update_binding_def Let_def r1_def)
        ultimately show ?thesis by (simp add: follows_def r1_def)
      qed
    qed
  qed
qed

lemma key_signature_with_timeout [simp]: "key_signature (with_timeout ms b) = key_signature b"
  by (simp add: key_signature_def tokens_def with_timeout_def)

lemma with_timeout_fields [simp]:
  "binding_id (with_timeout ms b) = binding_id b"
  "mode (with_timeout ms b) = mode b"
  "action_id (with_timeout ms b) = action_id b"
  by (simp_all add: with_timeout_def)

lemma registry_ok_in_place_all:
  assumes "registry_ok r"
    and "\<forall>b \<in> set targets. \<exists>c. map_of (bindings r) (binding_id b) = Some c
            \<and> mode c = mode b \<and> key_signature c = key_signature b
            \<and> action_id c = action_id b"
  shows "registry_ok (foldl (\<lambda>r b. update_binding_in_place r b (with_timeout ms b)) r targets)
         \<and> revision (foldl (\<lambda>r b. update_binding_in_place r b (with_timeout ms b)) r targets)
             = revision r"
  using assms
proof (induction targets arbitrary: r)
  case Nil
  then show ?case by simp
next
  case (Cons b targets)
  define r1 where "r1 = update_binding_in_place r b (with_timeout ms b)"
  obtain c where c: "map_of (bindings r) (binding_id b) = Some c" "mode c = mode b"
      "key_signature c = key_signature b" "action_id c = action_id b"
    using Cons.prems(2) by auto
  have t: "tables_ok (map_of (actions r)) (map_of (bindings r)) (mode_index r)"
    using Cons.prems(1) by (rule registry_ok_tables)
  have "map_of (actions r) (action_id c) \<noteq> None"
    using t c(1) unfolding tables_ok_def by blast
  then have act: "map_of (actions r) (action_id (with_timeout ms b)) \<noteq> None"
    using c(4) by simp
  have "tables_ok (map_of (actions r)) ((map_of (bindings r))(binding_id b \<mapsto> with_timeout ms b))
          (index_binding (remove_binding (mode_index r) b) (with_timeout ms b))"
    using tables_ok_rebind [OF t c(1) c(2) c(3) refl _ act] by simp
  then have ok1: "registry_ok r1"
    using Cons.prems(1)
    by (simp add: registry_ok_def r1_def update_binding_in_place_def update_conv' distinct_update)
  have rev1: "revision r1 = revision r" by (simp add: r1_def update_binding_in_place_def)
  have m1: "map_of (bindings r1) = (map_of (bindings r))(binding_id b \<mapsto> with_timeout ms b)"
    by (simp add: r1_def update_binding_in_place_def update_conv')
  have "\<forall>d \<in> set targets. \<exists>c. map_of (bindings r1) (binding_id d) = Some c
            \<and> mode c = mode d \<and> key_signature c = key_signature d
            \<and> action_id c = action_id d"
  proof
    fix d assume "d \<in> set targets"
    then obtain c' where c': "map_of (bindings r) (binding_id d) = Some c'" "mode c' = mode d"
      "key_signature c' = key_signature d" "action_id c' = action_id d"
      using Cons.prems(2) by auto
    show "\<exists>c. map_of (bindings r1) (binding_id d) = Some c
            \<and> mode c = mode d \<and> key_signature c = key_signature d
            \<and> action_id c = action_id d"
    proof (cases "binding_id d = binding_id b")
      case True
      then have "c' = c" using c c' by simp
      then show ?thesis using True c c' m1 by simp
    next
      case False
      then show ?thesis using c' m1 by simp
    qed
  qed
  from Cons.IH [OF ok1 this] show ?case using rev1 by (simp add: r1_def)
qed

lemma follows_override_sequence_timeouts:
  assumes ok: "registry_ok r"
  shows "follows r (snd (override_sequence_timeouts r ms target binding_ids))"
proof (cases "ms \<le> 0")
  case True
  then show ?thesis using ok by (simp add: override_sequence_timeouts_def follows_refl)
next
  case False
  define looked where "looked = (case binding_ids of
                 Some ids \<Rightarrow> lookup_all r ids
               | None \<Rightarrow> iter_bindings r target)"
  show ?thesis
  proof (cases looked)
    case (Inl err)
    then show ?thesis using ok False
      by (simp add: override_sequence_timeouts_def looked_def follows_refl)
  next
    case (Inr targets)
    have reg: "\<forall>b \<in> set targets. \<exists>i. map_of (bindings r) i = Some b"
    proof (cases binding_ids)
      case (Some ids)
      then show ?thesis using Inr lookup_all_members [of r ids targets]
        by (auto simp: looked_def)
    next
      case None
      note none = this
      show ?thesis
      proof (cases target)
        case None
        have "distinct (map fst (bindings r))" using ok by (simp add: registry_ok_def)
        then have "\<exists>i. map_of (bindings r) i = Some b" if "b \<in> set (map snd (bindings r))" for b
          using that map_of_is_SomeI [of "bindings r"] by fastforce
        moreover have "targets = map snd (bindings r)"
          using Inr none None by (simp add: looked_def iter_bindings_def)
        ultimately show ?thesis by blast
      next
        case (Some m)
        then show ?thesis using Inr none lookup_all_members [of r _ targets]
          by (auto simp: looked_def iter_bindings_def)
      qed
    qed
    have "\<forall>b \<in> set targets. \<exists>c. map_of (bindings r) (binding_id b) = Some c
            \<and> mode c = mode b \<and> key_signature c = key_signature b
            \<and> action_id c = action_id b"
    proof
      fix b assume "b \<in> set targets"
      then obtain i where "map_of (bindings r) i = Some b" using reg by blast
      then have "map_of (bindings r) (binding_id b) = Some b"
        using registered_id [OF ok] by auto
      then show "\<exists>c. map_of (bindings r) (binding_id b) = Some c
            \<and> mode c = mode b \<and> key_signature c = key_signature b
            \<and> action_id c = action_id b" by simp
    qed
    from registry_ok_in_place_all [OF ok this, of ms]
    have "registry_ok (touch_bindings
            (foldl (\<lambda>r b. update_binding_in_place r b (with_timeout ms b)) r targets))"
      "revision (touch_bindings
            (foldl (\<lambda>r b. update_binding_in_place r b (with_timeout ms b)) r targets))
       = revision r + 1"
      by (simp_all add: registry_ok_def touch_bindings_def)
    then show ?thesis using Inr False ok
      by (cases "targets = []")
         (simp_all add: override_sequence_timeouts_def looked_def [symmetric] follows_def)
  qed
qed

lemma sub_append:
  "sub t (p @ q) = (case sub t p of None \<Rightarrow> None | Some n \<Rightarrow> sub n q)"
  by (induction p arbitrary: t) (auto split: option.splits)

lemma sub_empty_node: "sub (TrieNode [] []) p \<noteq> None \<longleftrightarrow> p = []"
  by (cases p) auto

lemma ids_at_empty_node [simp]: "ids_at (TrieNode [] []) p = []"
  by (cases p) (auto simp: ids_at_def)

lemma ids_at_add_path:
  "ids_at (add_path ts i t) p = ids_at t p @ (if p = ts then [i] else [])"
proof (induction ts arbitrary: t p)
  case Nil
  obtain ids cs where t: "t = TrieNode ids cs" by (cases t)
  show ?case by (cases p) (auto simp: t ids_at_def)
next
  case (Cons a ts)
  obtain ids cs where t: "t = TrieNode ids cs" by (cases t)
  define c0 where "c0 = (case map_of cs a of None \<Rightarrow> TrieNode [] [] | Some child \<Rightarrow> child)"
  show ?case
  proof (cases p)
    case Nil
    then show ?thesis by (simp add: t ids_at_def)
  next
    case (Cons k q)
    show ?thesis
    proof (cases "k = a")
      case True
      have "ids_at (add_path (a # ts) i t) p = ids_at (add_path ts i c0) q"
        by (simp add: t Cons True ids_at_def update_conv' c0_def)
      also have "\<dots> = ids_at c0 q @ (if q = ts then [i] else [])" by (rule Cons.IH)
      also have "ids_at c0 q = ids_at t p"
      proof (cases "map_of cs a")
        case None
        then have "ids_at c0 q = []" by (simp add: c0_def)
        moreover have "ids_at t p = []" using None by (simp add: t Cons True ids_at_def)
        ultimately show ?thesis by simp
      next
        case (Some c)
        then show ?thesis by (simp add: c0_def t Cons True ids_at_def)
      qed
      finally show ?thesis by (simp add: Cons True)
    next
      case False
      then show ?thesis by (simp add: t Cons ids_at_def update_conv')
    qed
  qed
qed

lemma sub_add_path_exists:
  "sub (add_path ts i t) p \<noteq> None \<longleftrightarrow> sub t p \<noteq> None \<or> (\<exists>q. ts = p @ q)"
proof (induction ts arbitrary: t p)
  case Nil
  obtain ids cs where t: "t = TrieNode ids cs" by (cases t)
  show ?case by (cases p) (auto simp: t)
next
  case (Cons a ts)
  obtain ids cs where t: "t = TrieNode ids cs" by (cases t)
  define c0 where "c0 = (case map_of cs a of None \<Rightarrow> TrieNode [] [] | Some child \<Rightarrow> child)"
  show ?case
  proof (cases p)
    case Nil
    then show ?thesis by simp
  next
    case (Cons k q)
    show ?thesis
    proof (cases "k = a")
      case True
      have "sub (add_path (a # ts) i t) p = sub (add_path ts i c0) q"
        by (simp add: t Cons True update_conv' c0_def)
      moreover have "sub (add_path ts i c0) q \<noteq> None \<longleftrightarrow> sub c0 q \<noteq> None \<or> (\<exists>q'. ts = q @ q')"
        by (rule Cons.IH)
      moreover have "sub c0 q \<noteq> None \<longleftrightarrow> sub t p \<noteq> None \<or> q = []"
      proof (cases "map_of cs a")
        case None
        then show ?thesis using sub_empty_node [of q] by (simp add: c0_def t Cons True)
      next
        case (Some c)
        then show ?thesis by (cases q) (simp_all add: c0_def t Cons True)
      qed
      ultimately show ?thesis by (auto simp: Cons True)
    next
      case False
      then show ?thesis by (simp add: t Cons update_conv')
    qed
  qed
qed

lemma set_update_subset: "set (AList.update k v al) \<subseteq> insert (k, v) (set al)"
  by (induction al) auto

lemma keys_distinct_add_path: "keys_distinct t \<Longrightarrow> keys_distinct (add_path ts i t)"
proof (induction ts arbitrary: t)
  case Nil
  then show ?case by (cases t) simp
next
  case (Cons a ts)
  obtain ids cs where t: "t = TrieNode ids cs" by (cases t)
  define c0 where "c0 = (case map_of cs a of None \<Rightarrow> TrieNode [] [] | Some child \<Rightarrow> child)"
  have "keys_distinct c0"
  proof (cases "map_of cs a")
    case None
    then show ?thesis by (simp add: c0_def)
  next
    case (Some c)
    then have "(a, c) \<in> set cs" by (rule map_of_SomeD)
    then show ?thesis using Cons.prems Some by (force simp: c0_def t)
  qed
  then have new: "keys_distinct (add_path ts i c0)" by (rule Cons.IH)
  have "set (AList.update a (add_path ts i c0) cs) \<subseteq> insert (a, add_path ts i c0) (set cs)"
    by (rule set_update_subset)
  then have "\<forall>c \<in> set (map snd (AList.update a (add_path ts i c0) cs)). keys_distinct c"
    using new Cons.prems by (fastforce simp: t)
  then show ?case using Cons.prems by (simp add: t c0_def distinct_update)
qed

lemma keys_distinct_sub:
  "keys_distinct t \<Longrightarrow> sub t p = Some n \<Longrightarrow> keys_distinct n"
proof (induction p arbitrary: t)
  case Nil
  then show ?case by simp
next
  case (Cons k p)
  obtain ids cs where t: "t = TrieNode ids cs" by (cases t)
  from Cons.prems(2) obtain c where c: "map_of cs k = Some c" "sub c p = Some n"
    by (auto simp: t split: option.splits)
  then have "(k, c) \<in> set cs" by (auto dest: map_of_SomeD)
  then have "keys_distinct c" using Cons.prems(1) by (force simp: t)
  then show ?case using Cons.IH c(2) by blast
qed

lemma all_ids_paths:
  "keys_distinct t \<Longrightarrow> i \<in> all_ids t \<longleftrightarrow> (\<exists>p. i \<in> set (ids_at t p))"
proof (induction t arbitrary: i rule: all_ids.induct)
  case (1 ids cs)
  have d: "distinct (map fst cs)" using 1(2) by simp
  have kc: "keys_distinct c" if "c \<in> set (map snd cs)" for c using 1(2) that by auto
  show ?case
  proof
    assume "i \<in> all_ids (TrieNode ids cs)"
    then consider "i \<in> set ids" | c where "c \<in> set (map snd cs)" "i \<in> all_ids c" by auto
    then show "\<exists>p. i \<in> set (ids_at (TrieNode ids cs) p)"
    proof cases
      case 1
      then have "i \<in> set (ids_at (TrieNode ids cs) [])" by (simp add: ids_at_def)
      then show ?thesis by blast
    next
      case 2
      then obtain p where p: "i \<in> set (ids_at c p)" using "1.IH" [OF 2(1) kc [OF 2(1)]] by blast
      from 2(1) obtain k where "(k, c) \<in> set cs" by auto
      then have "map_of cs k = Some c" using d by simp
      then have "ids_at (TrieNode ids cs) (k # p) = ids_at c p" by (simp add: ids_at_def)
      then show ?thesis using p by metis
    qed
  next
    assume "\<exists>p. i \<in> set (ids_at (TrieNode ids cs) p)"
    then obtain p where p: "i \<in> set (ids_at (TrieNode ids cs) p)" by blast
    show "i \<in> all_ids (TrieNode ids cs)"
    proof (cases p)
      case Nil
      then show ?thesis using p by (simp add: ids_at_def)
    next
      case (Cons k q)
      then obtain c where c: "map_of cs k = Some c" "i \<in> set (ids_at c q)"
        using p by (auto simp: ids_at_def split: option.splits)
      then have m: "c \<in> set (map snd cs)" by (force dest: map_of_SomeD)
      then have "i \<in> all_ids c" using "1.IH" [OF m kc [OF m]] c(2) by blast
      then show ?thesis using m by auto
    qed
  qed
qed

lemma similar_child:
  assumes "similar t1 t2" and "map_of (children t1) k = Some c1"
  shows "\<exists>c2. map_of (children t2) k = Some c2 \<and> similar c1 c2"
proof -
  have "sub t1 [k] = Some c1" using assms(2) by simp
  then have "sub t2 [k] \<noteq> None" using assms(1) unfolding similar_def by (metis option.distinct(1))
  then obtain c2 where c2: "map_of (children t2) k = Some c2" by (auto split: option.splits)
  have s1: "sub c1 p = sub t1 (k # p)" for p using assms(2) by simp
  have s2: "sub c2 p = sub t2 (k # p)" for p using c2 by simp
  have i1: "ids_at c1 p = ids_at t1 (k # p)" for p using assms(2) by (simp add: ids_at_def)
  have i2: "ids_at c2 p = ids_at t2 (k # p)" for p using c2 by (simp add: ids_at_def)
  have "keys_distinct c1" using keys_distinct_sub [of t1 "[k]" c1] assms by (simp add: similar_def)
  moreover have "keys_distinct c2"
    using keys_distinct_sub [of t2 "[k]" c2] assms(1) c2 by (simp add: similar_def)
  ultimately have "similar c1 c2"
    using assms(1) unfolding similar_def s1 s2 i1 i2 by blast
  then show ?thesis using c2 by blast
qed

lemma similar_no_child:
  assumes "similar t1 t2" and "map_of (children t1) k = None"
  shows "map_of (children t2) k = None"
proof -
  have "sub t1 [k] = None" using assms(2) by simp
  then have "sub t2 [k] = None" using assms(1) unfolding similar_def by blast
  then show ?thesis by (auto split: option.splits)
qed

lemma walk_similar:
  assumes "similar t1 t2"
  shows "(case walk t1 toks s of
            Inl c \<Rightarrow> walk t2 toks s = Inl c
          | Inr (n1, c) \<Rightarrow> (\<exists>n2. walk t2 toks s = Inr (n2, c) \<and> similar n1 n2))"
  using assms
proof (induction toks arbitrary: t1 t2 s)
  case Nil
  then show ?case by simp
next
  case (Cons k toks)
  show ?case
  proof (cases "map_of (children t1) k")
    case None
    then show ?thesis using similar_no_child [OF Cons.prems None] by simp
  next
    case (Some c1)
    then obtain c2 where c2: "map_of (children t2) k = Some c2" "similar c1 c2"
      using similar_child [OF Cons.prems Some] by blast
    have w1: "walk t1 (k # toks) s = walk c1 toks (Suc s)" using Some by simp
    have w2: "walk t2 (k # toks) s = walk c2 toks (Suc s)" using c2(1) by simp
    show ?thesis unfolding w1 w2 using c2(2) by (rule Cons.IH)
  qed
qed

lemma walk_sub: "walk t toks s = Inr (n, c) \<Longrightarrow> sub t toks = Some n"
  by (induction toks arbitrary: t s) (auto split: option.splits)

lemma known_sub:
  assumes "known r t" and "sub t p = Some n"
  shows "known r n"
  unfolding known_def
proof (intro allI ballI)
  fix q i assume "i \<in> set (ids_at n q)"
  then have "i \<in> set (ids_at t (p @ q))" using assms(2) by (simp add: ids_at_def sub_append)
  then show "map_of (bindings r) i \<noteq> None" using assms(1) unfolding known_def by blast
qed

lemma known_similar:
  assumes "known r t1" and "similar t1 t2"
  shows "known r t2"
  using assms unfolding known_def similar_def by blast

subsection \<open>The match\<close>

lemma collect_matches_total:
  assumes ok: "registry_ok r" and "\<forall>i \<in> set ids. map_of (bindings r) i \<noteq> None"
  shows "collect_matches r ctx ids =
           Inr (map (match_of r) (filter (\<lambda>i. allows (the (map_of (bindings r) i)) ctx) ids))"
  using assms(2)
proof (induction ids)
  case Nil
  show ?case by simp
next
  case (Cons i ids)
  then obtain b where b: "map_of (bindings r) i = Some b" by auto
  then obtain a where a: "map_of (actions r) (action_id b) = Some a"
    using registry_ok_tables [OF ok] unfolding tables_ok_def by fastforce
  show ?case using Cons b a by (simp add: lookup_binding_def lookup_action_def match_of_def)
qed

lemma match_key_match_of:
  assumes "registry_ok r" and "map_of (bindings r) i \<noteq> None"
  shows "snd (match_key (match_of r i)) = i"
  using assms registered_id [of r i] by (auto simp: match_key_def match_of_def)

lemma hd_sorted_least:
  assumes "sorted (map f zs)" and "x \<in> set zs"
  shows "f (hd zs) \<le> f x"
  using assms by (cases zs) auto

lemma hd_sort_key_unique:
  assumes ne: "xs \<noteq> []" and eq: "set xs = set ys" and inj: "inj_on f (set xs)"
  shows "hd (sort_key f xs) = hd (sort_key f ys)"
proof -
  have ney: "ys \<noteq> []" using ne eq by auto
  define a where "a = hd (sort_key f xs)"
  define b where "b = hd (sort_key f ys)"
  have "sort_key f xs \<noteq> []" using ne by (metis set_empty set_sort)
  then have a: "a \<in> set xs" unfolding a_def by (metis hd_in_set set_sort)
  have "sort_key f ys \<noteq> []" using ney by (metis set_empty set_sort)
  then have b: "b \<in> set ys" unfolding b_def by (metis hd_in_set set_sort)
  have "f a \<le> f b"
    unfolding a_def using hd_sorted_least [of f "sort_key f xs" b] b eq by simp
  moreover have "f b \<le> f a"
    unfolding b_def using hd_sorted_least [of f "sort_key f ys" a] a eq by simp
  ultimately have "f a = f b" by simp
  then have "a = b" using inj a b eq by (auto dest: inj_onD)
  then show ?thesis by (simp add: a_def b_def)
qed

lemma select_match_similar:
  assumes ok: "registry_ok r" and k1: "known r n1" and sim: "similar n1 n2"
  shows "select_match r n1 ctx = select_match r n2 ctx"
proof -
  have k2: "known r n2" using k1 sim by (rule known_similar)
  have ids: "set (node_bindings n1) = set (node_bindings n2)"
    using sim unfolding similar_def by (metis ids_at_def option.simps(5) sub.simps(1))
  have r1: "\<forall>i \<in> set (node_bindings n1). map_of (bindings r) i \<noteq> None"
    using k1 unfolding known_def by (metis ids_at_def option.simps(5) sub.simps(1))
  have r2: "\<forall>i \<in> set (node_bindings n2). map_of (bindings r) i \<noteq> None"
    using r1 ids by simp
  define m1 where "m1 = map (match_of r)
      (filter (\<lambda>i. allows (the (map_of (bindings r) i)) ctx) (node_bindings n1))"
  define m2 where "m2 = map (match_of r)
      (filter (\<lambda>i. allows (the (map_of (bindings r) i)) ctx) (node_bindings n2))"
  have c1: "collect_matches r ctx (node_bindings n1) = Inr m1"
    unfolding m1_def using ok r1 by (rule collect_matches_total)
  have c2: "collect_matches r ctx (node_bindings n2) = Inr m2"
    unfolding m2_def using ok r2 by (rule collect_matches_total)
  have sm: "set m1 = set m2" using ids by (simp add: m1_def m2_def)
  have inj: "inj_on match_key (set m1)"
  proof (rule inj_onI)
    fix x y assume x: "x \<in> set m1" and y: "y \<in> set m1" and e: "match_key x = match_key y"
    from x obtain i where i: "i \<in> set (node_bindings n1)" "x = match_of r i"
      by (auto simp: m1_def)
    from y obtain j where j: "j \<in> set (node_bindings n1)" "y = match_of r j"
      by (auto simp: m1_def)
    have "i = snd (match_key x)" using match_key_match_of [OF ok] r1 i by simp
    moreover have "j = snd (match_key y)" using match_key_match_of [OF ok] r1 j by simp
    ultimately show "x = y" using e i(2) j(2) by simp
  qed
  have e: "node_bindings n1 = [] \<longleftrightarrow> node_bindings n2 = []" using ids by (metis set_empty)
  have em: "m1 = [] \<longleftrightarrow> m2 = []" using sm by (metis set_empty)
  have "m1 \<noteq> [] \<Longrightarrow> hd (sort_key match_key m1) = hd (sort_key match_key m2)"
    using hd_sort_key_unique [OF _ sm inj] by blast
  then show ?thesis using c1 c2 e em by (auto simp: select_match_def)
qed

subsection \<open>The tokens expected next\<close>

lemma child_keys: "k \<in> set (map fst (children t)) \<longleftrightarrow> sub t [k] \<noteq> None"
proof -
  have "sub t [k] = map_of (children t) k" by (simp split: option.splits)
  then show ?thesis using map_of_eq_None_iff [of "children t" k] by simp
qed

lemma next_tokens_similar:
  assumes sim: "similar n1 n2"
  shows "next_tokens n1 = next_tokens n2"
proof -
  have d1: "distinct (map fst (children n1))" using sim by (cases n1) (simp add: similar_def)
  have d2: "distinct (map fst (children n2))" using sim by (cases n2) (simp add: similar_def)
  have "set (map fst (children n1)) = set (map fst (children n2))"
    using sim unfolding similar_def by (auto simp only: child_keys)
  then have "set (sort (map fst (children n1))) = set (sort (map fst (children n2)))" by simp
  then show ?thesis
    unfolding next_tokens_def using d1 d2
    by (intro sorted_distinct_set_unique) simp_all
qed

subsection \<open>The timeout of a pending prefix\<close>

lemma node_timeouts_total:
  assumes "\<forall>i \<in> set ids. map_of (bindings r) i \<noteq> None"
  shows "node_timeouts r ids = Inr (map (timeout_of r) ids)"
  using assms by (induction ids) (auto simp: lookup_binding_def timeout_of_def)

declare pending_loop.simps [simp del]

lemma all_ids_node: "all_ids n = set (node_bindings n) \<union> (\<Union>c \<in> set (map snd (children n)). all_ids c)"
  by (cases n) simp

lemma pending_loop_total:
  assumes "\<forall>n \<in> set stack. \<forall>i \<in> all_ids n. map_of (bindings r) i \<noteq> None"
  shows "\<exists>ts. pending_loop r stack acc = Inr (acc @ ts)
           \<and> set ts = timeout_of r ` (\<Union>n \<in> set stack. all_ids n)"
  using assms
proof (induction r stack acc rule: pending_loop.induct)
  case (1 r stack acc)
  show ?case
  proof (cases "stack = []")
    case True
    then show ?thesis by (subst pending_loop.simps) simp
  next
    case False
    define n where "n = last stack"
    define rest where "rest = butlast stack"
    have st: "stack = rest @ [n]" using False by (simp add: n_def rest_def)
    have reg: "\<forall>i \<in> set (node_bindings n). map_of (bindings r) i \<noteq> None"
      using "1.prems" st all_ids_node [of n] by auto
    have nt: "node_timeouts r (node_bindings (last stack)) = Inr (map (timeout_of r) (node_bindings n))"
      using node_timeouts_total [OF reg] by (simp add: n_def)
    have "\<forall>m \<in> set (butlast stack @ map snd (children (last stack))).
            \<forall>i \<in> all_ids m. map_of (bindings r) i \<noteq> None"
    proof (intro ballI)
      fix m i assume m: "m \<in> set (butlast stack @ map snd (children (last stack)))"
        and i: "i \<in> all_ids m"
      then consider "m \<in> set rest" | "m \<in> set (map snd (children n))"
        by (auto simp: n_def rest_def)
      then show "map_of (bindings r) i \<noteq> None"
      proof cases
        case 1
        then show ?thesis using "1.prems" st i by auto
      next
        case 2
        then have "i \<in> all_ids n" using i all_ids_node [of n] by blast
        then show ?thesis using "1.prems" st by auto
      qed
    qed
    from "1.IH" [OF False nt this]
    obtain ts where ts: "pending_loop r (butlast stack @ map snd (children (last stack)))
                           (acc @ map (timeout_of r) (node_bindings n))
                         = Inr ((acc @ map (timeout_of r) (node_bindings n)) @ ts)"
      "set ts = timeout_of r ` (\<Union>m \<in> set (butlast stack @ map snd (children (last stack))). all_ids m)"
      by blast
    have "pending_loop r stack acc = Inr (acc @ (map (timeout_of r) (node_bindings n) @ ts))"
      using False nt ts(1) by (simp add: pending_loop.simps [of r stack acc])
    moreover have "set (map (timeout_of r) (node_bindings n) @ ts)
                     = timeout_of r ` (\<Union>m \<in> set stack. all_ids m)"
    proof -
      have "(\<Union>m \<in> set stack. all_ids m) = (\<Union>m \<in> set rest. all_ids m) \<union> all_ids n"
        by (auto simp: st)
      moreover have "(\<Union>m \<in> set (butlast stack @ map snd (children (last stack))). all_ids m)
                       = (\<Union>m \<in> set rest. all_ids m)
                         \<union> (\<Union>c \<in> set (map snd (children n)). all_ids c)"
        by (auto simp: n_def rest_def)
      ultimately show ?thesis using ts(2) all_ids_node [of n] by (auto simp: image_Un)
    qed
    ultimately show ?thesis by blast
  qed
qed

lemma below_paths:
  assumes "keys_distinct n"
  shows "i \<in> (\<Union>c \<in> set (map snd (children n)). all_ids c)
           \<longleftrightarrow> (\<exists>k q. i \<in> set (ids_at n (k # q)))"
proof
  assume "i \<in> (\<Union>c \<in> set (map snd (children n)). all_ids c)"
  then obtain k c where kc: "(k, c) \<in> set (children n)" "i \<in> all_ids c" by auto
  have d: "distinct (map fst (children n))" using assms by (cases n) simp
  have m: "map_of (children n) k = Some c" using kc(1) d by simp
  then have "sub n [k] = Some c" by simp
  then have "keys_distinct c" using keys_distinct_sub [OF assms] by blast
  then obtain q where "i \<in> set (ids_at c q)" using all_ids_paths kc(2) by blast
  then have "i \<in> set (ids_at n (k # q))" using m by (simp add: ids_at_def)
  then show "\<exists>k q. i \<in> set (ids_at n (k # q))" by blast
next
  assume "\<exists>k q. i \<in> set (ids_at n (k # q))"
  then obtain k q where kq: "i \<in> set (ids_at n (k # q))" by blast
  then obtain c where c: "map_of (children n) k = Some c" "i \<in> set (ids_at c q)"
    by (auto simp: ids_at_def split: option.splits)
  then have "sub n [k] = Some c" by simp
  then have "keys_distinct c" using keys_distinct_sub [OF assms] by blast
  then have "i \<in> all_ids c" using all_ids_paths c(2) by blast
  moreover have "c \<in> set (map snd (children n))" using c(1) by (force dest: map_of_SomeD)
  ultimately show "i \<in> (\<Union>c \<in> set (map snd (children n)). all_ids c)" by blast
qed

lemma pending_timeout_similar:
  assumes k1: "known r n1" and sim: "similar n1 n2"
  shows "pending_timeout r n1 = pending_timeout r n2"
proof -
  have k2: "known r n2" using k1 sim by (rule known_similar)
  have kd: "keys_distinct n1" "keys_distinct n2" using sim by (simp_all add: similar_def)
  define S1 where "S1 = (\<Union>c \<in> set (map snd (children n1)). all_ids c)"
  define S2 where "S2 = (\<Union>c \<in> set (map snd (children n2)). all_ids c)"
  have "i \<in> S1 \<longleftrightarrow> i \<in> S2" for i
    unfolding S1_def S2_def below_paths [OF kd(1)] below_paths [OF kd(2)]
    using sim unfolding similar_def by simp
  then have S: "S1 = S2" by blast
  have g1: "\<forall>n \<in> set (map snd (children n1)). \<forall>i \<in> all_ids n. map_of (bindings r) i \<noteq> None"
  proof (intro ballI)
    fix n i assume "n \<in> set (map snd (children n1))" "i \<in> all_ids n"
    then have "i \<in> S1" unfolding S1_def by blast
    then obtain k q where "i \<in> set (ids_at n1 (k # q))"
      unfolding S1_def below_paths [OF kd(1)] by blast
    then show "map_of (bindings r) i \<noteq> None" using k1 unfolding known_def by blast
  qed
  have g2: "\<forall>n \<in> set (map snd (children n2)). \<forall>i \<in> all_ids n. map_of (bindings r) i \<noteq> None"
  proof (intro ballI)
    fix n i assume "n \<in> set (map snd (children n2))" "i \<in> all_ids n"
    then have "i \<in> S2" unfolding S2_def by blast
    then obtain k q where "i \<in> set (ids_at n2 (k # q))"
      unfolding S2_def below_paths [OF kd(2)] by blast
    then show "map_of (bindings r) i \<noteq> None" using k2 unfolding known_def by blast
  qed
  obtain ts1 where t1: "pending_loop r (map snd (children n1)) [] = Inr ts1"
      "set ts1 = timeout_of r ` S1"
    using pending_loop_total [OF g1, of "[]"] unfolding S1_def by auto
  obtain ts2 where t2: "pending_loop r (map snd (children n2)) [] = Inr ts2"
      "set ts2 = timeout_of r ` S2"
    using pending_loop_total [OF g2, of "[]"] unfolding S2_def by auto
  have e: "set ts1 = set ts2" using t1(2) t2(2) S by simp
  then have "ts1 = [] \<longleftrightarrow> ts2 = []" by (metis set_empty)
  moreover have "ts1 \<noteq> [] \<Longrightarrow> min_list ts1 = min_list ts2"
    using e by (metis min_list_Min set_empty)
  ultimately show ?thesis using t1(1) t2(1) by (auto simp: pending_timeout_def)
qed

subsection \<open>The result\<close>

lemma resolve_in_similar:
  assumes ok: "registry_ok r" and k1: "known r (root T1)" and sim: "similar (root T1) (root T2)"
  shows "resolve_in r T1 toks ctx = resolve_in r T2 toks ctx"
proof (cases "walk (root T1) toks 0")
  case (Inl c)
  then have "walk (root T2) toks 0 = Inl c" using walk_similar [OF sim, of toks 0] by simp
  then show ?thesis using Inl by (simp add: resolve_in_def)
next
  case (Inr pair)
  obtain n1 c where pair: "pair = (n1, c)" by (cases pair)
  obtain n2 where n2: "walk (root T2) toks 0 = Inr (n2, c)" "similar n1 n2"
    using walk_similar [OF sim, of toks 0] Inr pair by auto
  have kn: "known r n1" using known_sub [OF k1 walk_sub] Inr pair by blast
  have "select_match r n1 ctx = select_match r n2 ctx"
    using ok kn n2(2) by (rule select_match_similar)
  moreover have "next_tokens n1 = next_tokens n2" using n2(2) by (rule next_tokens_similar)
  moreover have "pending_timeout r n1 = pending_timeout r n2"
    using kn n2(2) by (rule pending_timeout_similar)
  ultimately show ?thesis using Inr pair n2(1)
    by (simp add: resolve_in_def split: sum.splits option.splits)
qed

lemma root_add_binding [simp]:
  "root (add_binding T b) = add_path (tokens (sequence b)) (binding_id b) (root T)"
  by (simp add: add_binding_def)

lemma built_ids:
  "set (ids_at (root (foldl add_binding T bs)) p)
     = set (ids_at (root T) p) \<union> {binding_id b | b. b \<in> set bs \<and> tokens (sequence b) = p}"
proof (induction bs arbitrary: T)
  case Nil
  show ?case by simp
next
  case (Cons b bs)
  show ?case unfolding foldl_Cons Cons.IH by (auto simp: ids_at_add_path)
qed

lemma built_exists:
  "sub (root (foldl add_binding T bs)) p = None
     \<longleftrightarrow> sub (root T) p = None \<and> \<not> (\<exists>b \<in> set bs. \<exists>q. tokens (sequence b) = p @ q)"
proof (induction bs arbitrary: T)
  case Nil
  show ?case by simp
next
  case (Cons b bs)
  have "sub (root (add_binding T b)) p = None
          \<longleftrightarrow> sub (root T) p = None \<and> \<not> (\<exists>q. tokens (sequence b) = p @ q)"
    using sub_add_path_exists [of "tokens (sequence b)" "binding_id b" "root T" p] by auto
  then show ?case unfolding foldl_Cons Cons.IH by auto
qed

lemma built_distinct:
  "keys_distinct (root T) \<Longrightarrow> keys_distinct (root (foldl add_binding T bs))"
  by (induction bs arbitrary: T) (simp_all add: keys_distinct_add_path)

lemma built_similar:
  assumes "set bs1 = set bs2" and "keys_distinct (root T)"
  shows "similar (root (foldl add_binding T bs1)) (root (foldl add_binding T bs2))"
  unfolding similar_def built_ids built_exists
  using assms by (simp add: built_distinct)

lemma built_known:
  assumes ok: "registry_ok r" and "\<forall>b \<in> set bs. \<exists>i. map_of (bindings r) i = Some b"
  shows "known r (root (foldl add_binding \<lparr>trie_mode = m, root = TrieNode [] []\<rparr> bs))"
  unfolding known_def
proof (intro allI ballI)
  fix p i
  assume "i \<in> set (ids_at (root (foldl add_binding \<lparr>trie_mode = m, root = TrieNode [] []\<rparr> bs)) p)"
  then obtain b where b: "b \<in> set bs" "i = binding_id b" by (auto simp: built_ids)
  then obtain j where j: "map_of (bindings r) j = Some b" using assms(2) by blast
  then have "j = i" using registered_id [OF ok j] b(2) by simp
  then show "map_of (bindings r) i \<noteq> None" using j by simp
qed

lemma cache_ok_empty: "cache_ok r []"
  by (simp add: cache_ok_def)

lemma cache_ok_follows:
  assumes "cache_ok r cache" and "follows r r'"
  shows "cache_ok r' cache"
  unfolding cache_ok_def
proof (intro allI impI)
  fix m built trie
  assume c: "map_of cache m = Some (built, trie)"
  then have le: "built \<le> revision r"
    and eq: "built = revision r \<Longrightarrow>
         \<exists>bs. root trie = root (foldl add_binding \<lparr>trie_mode = m, root = TrieNode [] []\<rparr> bs)
            \<and> set bs = {b. \<exists>i. map_of (bindings r) i = Some b \<and> mode b = m}"
    using assms(1) unfolding cache_ok_def by blast+
  consider "revision r' = revision r + 1"
    | "revision r' = revision r" "map_of (bindings r') = map_of (bindings r)"
    using assms(2) unfolding follows_def by blast
  then show "built \<le> revision r'
        \<and> (built = revision r' \<longrightarrow>
             (\<exists>bs. root trie = root (foldl add_binding \<lparr>trie_mode = m, root = TrieNode [] []\<rparr> bs)
                  \<and> set bs = {b. \<exists>i. map_of (bindings r') i = Some b \<and> mode b = m}))"
  proof cases
    case 1
    then show ?thesis using le by simp
  next
    case 2
    then show ?thesis using le eq by simp
  qed
qed

lemma cache_ok_resolve:
  assumes ok: "registry_ok r" and c: "cache_ok r cache"
  shows "cache_ok r (snd (resolve_keys cache r m toks ctx))"
proof -
  obtain bs where bs: "iter_bindings r (Some m) = Inr bs"
      "set bs = {b. \<exists>i. map_of (bindings r) i = Some b \<and> mode b = m}"
    using iter_bindings_mode [OF ok] by blast
  define trie where "trie = foldl add_binding \<lparr>trie_mode = m, root = TrieNode [] []\<rparr> bs"
  have new: "cache_ok r (AList.update m (revision r, trie) cache)"
    unfolding cache_ok_def
  proof (intro allI impI)
    fix m' built t
    assume a: "map_of (AList.update m (revision r, trie) cache) m' = Some (built, t)"
    show "built \<le> revision r
        \<and> (built = revision r \<longrightarrow>
             (\<exists>bs. root t = root (foldl add_binding \<lparr>trie_mode = m', root = TrieNode [] []\<rparr> bs)
                  \<and> set bs = {b. \<exists>i. map_of (bindings r) i = Some b \<and> mode b = m'}))"
    proof (cases "m' = m")
      case True
      then have "built = revision r" "t = trie" using a by (simp_all add: update_conv')
      then show ?thesis using bs(2) True unfolding trie_def by blast
    next
      case False
      then have "map_of cache m' = Some (built, t)" using a by (simp add: update_conv')
      then show ?thesis using c unfolding cache_ok_def by blast
    qed
  qed
  have "snd (ensure_trie cache r m) = cache
        \<or> snd (ensure_trie cache r m) = AList.update m (revision r, trie) cache"
    using bs(1) by (auto simp: ensure_trie_def Let_def trie_def split: option.splits)
  moreover have "snd (resolve_keys cache r m toks ctx) = snd (ensure_trie cache r m)"
    by (simp add: resolve_keys_def split: prod.splits sum.splits)
  ultimately show ?thesis using c new by auto
qed

lemma cache_ok_reset:
  assumes "cache_ok r cache"
  shows "cache_ok r (reset cache target)"
proof (cases target)
  case None
  then show ?thesis by (simp add: reset_def cache_ok_empty)
next
  case (Some m)
  have "map_of (AList.delete m cache) m' = Some x \<Longrightarrow> map_of cache m' = Some x" for m' x
    by (simp add: delete_conv' split: if_splits)
  then show ?thesis using assms Some unfolding cache_ok_def reset_def by (simp, blast)
qed

lemma follows_call:
  assumes "registry_ok r" and "keeps_id c"
  shows "follows r (fst (after_registry_call (r, cache) c))"
proof (cases c)
  case (RegisterAction a replace)
  then show ?thesis using follows_register_action [OF assms(1)] by simp
next
  case (RegisterBinding b replace)
  then show ?thesis using follows_register_binding [OF assms(1)] by simp
next
  case (UnregisterBinding i)
  then show ?thesis using follows_unregister_binding [OF assms(1)] by simp
next
  case (UpdateBinding i ch)
  then show ?thesis using follows_update_binding [OF assms(1), of ch i] assms(2) by simp
next
  case (OverrideSequenceTimeouts ms target ids)
  then show ?thesis using follows_override_sequence_timeouts [OF assms(1)] by simp
next
  case (Resolve m toks ctx)
  then show ?thesis using assms(1) by (simp add: follows_refl)
next
  case (Reset target)
  then show ?thesis using assms(1) by (simp add: follows_refl)
qed

lemma call_keeps_invariants:
  assumes ok: "registry_ok r" and c: "cache_ok r cache" and k: "keeps_id call"
  shows "registry_ok (fst (after_registry_call (r, cache) call))
         \<and> cache_ok (fst (after_registry_call (r, cache) call))
              (snd (after_registry_call (r, cache) call))"
proof -
  have f: "follows r (fst (after_registry_call (r, cache) call))"
    using ok k by (rule follows_call)
  then have ok': "registry_ok (fst (after_registry_call (r, cache) call))"
    by (simp add: follows_def)
  have "cache_ok (fst (after_registry_call (r, cache) call))
              (snd (after_registry_call (r, cache) call))"
  proof (cases call)
    case (Resolve m toks ctx)
    then show ?thesis using cache_ok_resolve [OF ok c] by simp
  next
    case (Reset target)
    then show ?thesis using cache_ok_reset [OF c] by simp
  qed (use cache_ok_follows [OF c f] in simp_all)
  then show ?thesis using ok' by blast
qed

lemma calls_keep_invariants:
  assumes "registry_ok r" and "cache_ok r cache" and "list_all keeps_id calls"
  shows "registry_ok (fst (foldl after_registry_call (r, cache) calls))
         \<and> cache_ok (fst (foldl after_registry_call (r, cache) calls))
              (snd (foldl after_registry_call (r, cache) calls))"
  using assms
proof (induction calls arbitrary: r cache)
  case Nil
  then show ?case by simp
next
  case (Cons call calls)
  obtain r1 c1 where s: "after_registry_call (r, cache) call = (r1, c1)"
    by (cases "after_registry_call (r, cache) call")
  have "registry_ok r1 \<and> cache_ok r1 c1"
    using call_keeps_invariants [OF Cons.prems(1,2), of call] Cons.prems(3) s by simp
  then show ?case using Cons.IH [of r1 c1] Cons.prems(3) s by simp
qed

lemma resolve_cached_is_fresh:
  assumes ok: "registry_ok r" and c: "cache_ok r cache"
  shows "fst (resolve_keys cache r m toks ctx) = fst (resolve_keys [] r m toks ctx)"
proof -
  obtain bs0 where bs0: "iter_bindings r (Some m) = Inr bs0"
      "set bs0 = {b. \<exists>i. map_of (bindings r) i = Some b \<and> mode b = m}"
    using iter_bindings_mode [OF ok] by blast
  define T0 where "T0 = foldl add_binding \<lparr>trie_mode = m, root = TrieNode [] []\<rparr> bs0"
  have fresh: "fst (resolve_keys [] r m toks ctx) = resolve_in r T0 toks ctx"
    using bs0(1) by (simp add: resolve_keys_def ensure_trie_def Let_def T0_def)
  show ?thesis
  proof (cases "\<exists>trie. map_of cache m = Some (revision r, trie)")
    case True
    then obtain trie where t: "map_of cache m = Some (revision r, trie)" by blast
    then obtain bs where bs:
        "root trie = root (foldl add_binding \<lparr>trie_mode = m, root = TrieNode [] []\<rparr> bs)"
        "set bs = {b. \<exists>i. map_of (bindings r) i = Some b \<and> mode b = m}"
      using c unfolding cache_ok_def by blast
    have sim: "similar (root trie) (root T0)"
      unfolding bs(1) T0_def using bs(2) bs0(2) by (intro built_similar) simp_all
    have kn: "known r (root trie)"
      unfolding bs(1) using ok bs(2) by (intro built_known) auto
    have "fst (resolve_keys cache r m toks ctx) = resolve_in r trie toks ctx"
      using t by (simp add: resolve_keys_def ensure_trie_def)
    then show ?thesis using fresh resolve_in_similar [OF ok kn sim] by simp
  next
    case False
    then have "fst (resolve_keys cache r m toks ctx) = resolve_in r T0 toks ctx"
      using bs0(1)
      by (auto simp: resolve_keys_def ensure_trie_def Let_def T0_def split: option.splits)
    then show ?thesis using fresh by simp
  qed
qed

lemmas keymap_eval =
  register_action_def register_binding_def unregister_binding_def update_binding_def
  detect_conflicts_def bucket_def index_binding_def remove_binding_def set_add_def
  store_binding_def drop_binding_def touch_bindings_def lookup_binding_def lookup_action_def
  replace_fields_def no_changes_def iter_bindings_def
  gg_binding_def gg_sequence_def x_binding_def x_sequence_def test_action_def new_registry_def
  key_signature_def tokens_def token_def contexts_overlap_def when_map_def disagree_def
  dict_eq_def allows_def evaluate_def
  resolve_keys_def ensure_trie_def resolve_in_def select_match_def match_key_def
  next_tokens_def pending_timeout_def resolution_result_def add_binding_def reset_def Let_def

lemma session_example:
  "session example_calls =
     (\<lparr>actions = [(''core.test'', test_action)],
       bindings = [(''a'', gg_binding ''a'' []), (''c'', x_binding)],
       mode_index = [(''normal'', [(''g g'', [''a'']), (''x'', [''c''])])],
       revision = 2\<rparr>,
      [(''normal'', 1, \<lparr>trie_mode = ''normal'',
          root = TrieNode [] [(''g'', TrieNode [] [(''g'', TrieNode [''a''] [])])]\<rparr>)])"
  by (simp add: session_def example_calls_def keymap_eval)

lemma session_renaming:
  "session renaming_calls =
     (\<lparr>actions = [(''core.test'', test_action)],
       bindings = [(''b'', renamed_binding), (''c'', x_binding)],
       mode_index = [(''normal'', [(''x'', [''c'']), (''g g'', [''a''])])],
       revision = 5\<rparr>,
      [(''normal'', 5, \<lparr>trie_mode = ''normal'', root = TrieNode [] [(''x'', TrieNode [''c''] [])]\<rparr>)])"
  by (simp add: session_def renaming_calls_def renamed_binding_def keymap_eval)

text \<open>
  Claim C9, as amended. Take a new registry and a new resolver over it, and any sequence
  of calls on the two: \<open>register_action\<close>, \<open>register_binding\<close> (with or without
  \<open>replace\<close>), \<open>unregister_binding\<close>, \<open>update_binding\<close> that does not give the binding
  another id, \<open>override_sequence_timeouts\<close>, and \<open>resolve\<close> and \<open>reset\<close> of the resolver,
  each of which may succeed or raise. Then a \<open>resolve\<close> call of that resolver returns
  the result, or raises the error, that a resolver with an empty cache returns on the
  registry as it is now, for every mode, token sequence and context. The cache is kept
  right by the revision: one more call of the sequence either moves the revision on by
  one or leaves both the revision and the registered bindings as they were (so
  \<open>register_action\<close>, a call that raises and a call that finds nothing to do leave the
  revision alone).
\<close>

theorem cached_resolver_agrees_with_fresh:
  assumes "list_all keeps_id calls" and "session calls = (r, cache)" and "keeps_id call"
  shows "fst (resolve_keys cache r m toks ctx) = fst (resolve_keys [] r m toks ctx)
         \<and> (revision (fst (after_registry_call (r, cache) call)) = revision r + 1
            \<or> revision (fst (after_registry_call (r, cache) call)) = revision r
              \<and> map_of (bindings (fst (after_registry_call (r, cache) call)))
                  = map_of (bindings r))"
proof -
  have inv: "registry_ok r \<and> cache_ok r cache"
    using calls_keep_invariants [OF registry_ok_new cache_ok_empty assms(1)] assms(2)
    by (simp add: session_def)
  then have "fst (resolve_keys cache r m toks ctx) = fst (resolve_keys [] r m toks ctx)"
    by (simp add: resolve_cached_is_fresh)
  moreover have "follows r (fst (after_registry_call (r, cache) call))"
    using inv assms(3) by (simp add: follows_call)
  ultimately show ?thesis unfolding follows_def by blast
qed

theorem cached_resolver_agrees_with_fresh_witness:
  "list_all keeps_id example_calls
   \<and> keeps_id (UnregisterBinding ''a'')
   \<and> revision (fst (session example_calls)) = 2
   \<and> map_of (snd (session example_calls)) ''normal''
       = Some (1, \<lparr>trie_mode = ''normal'',
            root = TrieNode [] [(''g'', TrieNode [] [(''g'', TrieNode [''a''] [])])]\<rparr>)
   \<and> fst (resolve_keys (snd (session example_calls)) (fst (session example_calls))
            ''normal'' [''x''] Map.empty)
       = fst (resolve_keys [] (fst (session example_calls)) ''normal'' [''x''] Map.empty)
   \<and> fst (resolve_keys [] (fst (session example_calls)) ''normal'' [''x''] Map.empty)
       = Inr \<lparr>res_status = ''match'', res_match = Some (x_binding, test_action),
              res_consumed = 1, next_expected = [], res_timeout_ms = None\<rparr>
   \<and> revision (fst (after_registry_call (session example_calls) (UnregisterBinding ''a''))) = 3"
proof -
  have k: "list_all keeps_id example_calls" by (simp add: example_calls_def)
  have s: "session example_calls = (fst (session example_calls), snd (session example_calls))"
    by simp
  have u: "keeps_id (UnregisterBinding ''a'')" by simp
  note t = cached_resolver_agrees_with_fresh [OF k s u, of "''normal''" "[''x'']" Map.empty]
  have e: "fst (resolve_keys (snd (session example_calls)) (fst (session example_calls))
            ''normal'' [''x''] Map.empty)
       = fst (resolve_keys [] (fst (session example_calls)) ''normal'' [''x''] Map.empty)"
    using t by (rule conjunct1)
  have f: "fst (resolve_keys [] (fst (session example_calls)) ''normal'' [''x''] Map.empty)
       = Inr \<lparr>res_status = ''match'', res_match = Some (x_binding, test_action),
              res_consumed = 1, next_expected = [], res_timeout_ms = None\<rparr>"
    unfolding session_example by (simp add: keymap_eval)
  have r3: "revision (fst (after_registry_call (session example_calls) (UnregisterBinding ''a''))) = 3"
    unfolding session_example by (simp add: keymap_eval)
  show ?thesis using k u e f r3 unfolding session_example by simp
qed

text \<open>
  Two ways in which the claim as stated fails. \<open>register_action\<close> changes the registry
  (its table of actions) and leaves the revision where it was. And after
  \<open>update_binding("b", id="a")\<close> the binding stays under the key \<open>b\<close> of the table while
  the index lists it as \<open>a\<close>; \<open>unregister_binding("a")\<close> then empties the index, and a
  later \<open>update_binding("b", ...)\<close> that is refused for a conflict puts \<open>a\<close> back into
  the index without touching the revision: the resolver that cached its trie before
  that call still answers \<open>x\<close> with the binding \<open>c\<close>, a resolver with an empty cache
  raises \<open>KeyError\<close> while it rebuilds the trie.
\<close>

theorem revision_and_rename_counterexample:
  "revision (snd (register_action new_registry test_action False)) = revision new_registry
   \<and> actions (snd (register_action new_registry test_action False)) \<noteq> actions new_registry
   \<and> fst (resolve_keys (snd (session renaming_calls)) (fst (session renaming_calls))
            ''normal'' [''x''] Map.empty)
       = Inr \<lparr>res_status = ''match'', res_match = Some (x_binding, test_action),
              res_consumed = 1, next_expected = [], res_timeout_ms = None\<rparr>
   \<and> fst (resolve_keys [] (fst (session renaming_calls)) ''normal'' [''x''] Map.empty)
       = Inl (KeyError ''a'')"
proof -
  have a: "revision (snd (register_action new_registry test_action False)) = revision new_registry"
    by (simp add: register_action_def new_registry_def)
  have b: "actions (snd (register_action new_registry test_action False)) \<noteq> actions new_registry"
    by (simp add: register_action_def new_registry_def)
  have c: "fst (resolve_keys (snd (session renaming_calls)) (fst (session renaming_calls))
            ''normal'' [''x''] Map.empty)
       = Inr \<lparr>res_status = ''match'', res_match = Some (x_binding, test_action),
              res_consumed = 1, next_expected = [], res_timeout_ms = None\<rparr>"
    unfolding session_renaming by (simp add: keymap_eval)
  have d: "fst (resolve_keys [] (fst (session renaming_calls)) ''normal'' [''x''] Map.empty)
       = Inl (KeyError ''a'')"
    unfolding session_renaming by (simp add: keymap_eval)
  show ?thesis using a b c d by blast
qed

section \<open>Conflicts in a registry built by calls\<close>

lemma session_gg_calls: "session (gg_calls w) = (gg_registry w, [])"
  by (simp add: session_def gg_calls_def gg_registry_def keymap_eval)

lemma keeps_id_gg_calls: "list_all keeps_id (gg_calls w)"
  by (simp add: gg_calls_def)

text \<open>
  Claim C2, as amended. Take a registry reached from a new one by any calls of
  \<open>register_action\<close>, \<open>register_binding\<close>, \<open>unregister_binding\<close>,
  \<open>override_sequence_timeouts\<close> and \<open>update_binding\<close> that does not give a binding
  another id (and any calls of a resolver over it), each of which may return or raise.
  Let \<open>b2\<close> be registered there and let \<open>b1\<close> have the mode and the key signature of
  \<open>b2\<close>. Then \<open>detect_conflicts(b1)\<close> returns a list, and it holds \<open>b2\<close> exactly when
  neither binding has guards, or both have guards and their guard maps (flag to expected
  value) are the same map; the test is symmetric in the two bindings. So a guarded and an
  unguarded binding never conflict, and two guarded bindings conflict only on identical
  guard maps, not whenever they merely fail to contradict each other.
\<close>

theorem detect_conflicts_exact:
  assumes "list_all keeps_id calls" and "session calls = (r, cache)"
    and "map_of (bindings r) i2 = Some b2"
    and "mode b2 = mode b1" and "key_signature b2 = key_signature b1"
  shows "\<exists>found. detect_conflicts r b1 [] = Inr found
           \<and> (b2 \<in> set found \<longleftrightarrow>
                (when_clauses b1 = [] \<and> when_clauses b2 = [])
                \<or> (when_clauses b1 \<noteq> [] \<and> when_clauses b2 \<noteq> []
                   \<and> map_of (when_map b1) = map_of (when_map b2)))
           \<and> contexts_overlap b1 b2 = contexts_overlap b2 b1"
proof -
  have ok: "registry_ok r"
    using calls_keep_invariants [OF registry_ok_new cache_ok_empty assms(1)] assms(2)
    by (simp add: session_def)
  have all: "\<forall>i \<in> set (bucket (mode_index r) (mode b1) (key_signature b1)).
               map_of (bindings r) i \<noteq> None"
    using bucket_registered [OF ok] by fastforce
  have i2: "i2 \<in> set (bucket (mode_index r) (mode b1) (key_signature b1))"
    using registry_ok_tables [OF ok] assms(3,4,5) unfolding tables_ok_def by metis
  obtain found where f: "detect_conflicts r b1 [] = Inr found"
      "set found = {e. \<exists>i \<in> set (bucket (mode_index r) (mode b1) (key_signature b1)).
                         map_of (bindings r) i = Some e \<and> contexts_overlap b1 e}"
    using conflicts_loop_members [OF all] unfolding detect_conflicts_def by blast
  have "b2 \<in> set found \<longleftrightarrow> contexts_overlap b1 b2"
    unfolding f(2) using i2 assms(3) by auto
  then show ?thesis
    using f(1) contexts_overlap_sym [of b1 b2] contexts_overlap_iff [of b1 b2] by simp
qed

theorem detect_conflicts_exact_witness:
  "list_all keeps_id (gg_calls [])
   \<and> session (gg_calls []) = (gg_registry [], [])
   \<and> map_of (bindings (gg_registry [])) ''first'' = Some (gg_binding ''first'' [])
   \<and> mode (gg_binding ''first'' []) = mode (gg_binding ''second'' [])
   \<and> key_signature (gg_binding ''first'' []) = key_signature (gg_binding ''second'' [])
   \<and> detect_conflicts (gg_registry []) (gg_binding ''second'' []) [] = Inr [gg_binding ''first'' []]
   \<and> when_clauses (gg_binding ''second'' []) = []
   \<and> when_clauses (gg_binding ''first'' []) = []"
proof -
  have h: "map_of (bindings (gg_registry [])) ''first'' = Some (gg_binding ''first'' [])"
    "mode (gg_binding ''first'' []) = mode (gg_binding ''second'' [])"
    "key_signature (gg_binding ''first'' []) = key_signature (gg_binding ''second'' [])"
    by (simp_all add: gg_registry_def gg_binding_def key_signature_def)
  have d: "detect_conflicts (gg_registry []) (gg_binding ''second'' []) []
             = Inr [gg_binding ''first'' []]"
    unfolding detect_conflicts_def gg_bucket
    by (simp add: lookup_binding_def gg_registry_def contexts_overlap_def gg_binding_def)
  show ?thesis
    using detect_conflicts_exact [OF keeps_id_gg_calls session_gg_calls h] d h
      keeps_id_gg_calls [of "[]"] session_gg_calls [of "[]"]
    by (simp add: gg_binding_def)
qed

text \<open>
  The claim counts two guarded bindings whose guard sets share no flag as conflicting.
  With \<open>first\<close> guarded by \<open>a\<close> registered, \<open>detect_conflicts\<close> for \<open>second\<close>, with
  the same mode and keys and guarded by \<open>b\<close>, returns the empty list.
\<close>

theorem disjoint_guards_counterexample:
  "list_all keeps_id (gg_calls [\<lparr>flag = ''a'', expected = True\<rparr>])
   \<and> fst (session (gg_calls [\<lparr>flag = ''a'', expected = True\<rparr>]))
       = gg_registry [\<lparr>flag = ''a'', expected = True\<rparr>]
   \<and> mode (gg_binding ''second'' [\<lparr>flag = ''b'', expected = True\<rparr>])
     = mode (gg_binding ''first'' [\<lparr>flag = ''a'', expected = True\<rparr>])
   \<and> key_signature (gg_binding ''second'' [\<lparr>flag = ''b'', expected = True\<rparr>])
     = key_signature (gg_binding ''first'' [\<lparr>flag = ''a'', expected = True\<rparr>])
   \<and> map_of (bindings (gg_registry [\<lparr>flag = ''a'', expected = True\<rparr>])) ''first''
     = Some (gg_binding ''first'' [\<lparr>flag = ''a'', expected = True\<rparr>])
   \<and> when_map (gg_binding ''first'' [\<lparr>flag = ''a'', expected = True\<rparr>]) = [(''a'', True)]
   \<and> when_map (gg_binding ''second'' [\<lparr>flag = ''b'', expected = True\<rparr>]) = [(''b'', True)]
   \<and> detect_conflicts (gg_registry [\<lparr>flag = ''a'', expected = True\<rparr>])
        (gg_binding ''second'' [\<lparr>flag = ''b'', expected = True\<rparr>]) [] = Inr []"
  unfolding detect_conflicts_def gg_bucket session_gg_calls
  by (simp add: lookup_binding_def gg_registry_def contexts_overlap_def gg_binding_def
      when_map_def disagree_def dict_eq_def key_signature_def Let_def gg_calls_def)

end
